theory Spec2Isabelle
  imports Complex_Main
begin

section \<open>Python values used by \<open>verify_embeddings.py\<close>\<close>

text \<open>
  The script works on Python \<open>float\<close>s (IEEE 754 binary64), on unbounded \<open>int\<close>s, on
  \<open>str\<close> (a sequence of Unicode code points) and on lists. Every exception the
  interpreter can raise in the modelled functions is a value of \<open>error\<close>, and a function
  that can raise returns \<open>error + 'a\<close> with \<open>Inl\<close> for the exception.
\<close>

datatype error = ValueError | ZeroDivisionError | IndexError | OverflowError | MemoryError

text \<open>
  A float is a NaN, a signed infinity, or a sign and a finite magnitude. The magnitude is
  kept as the exact rational number the bit pattern denotes, so \<open>Fin False 0\<close> is \<open>0.0\<close>
  and \<open>Fin True 0\<close> is \<open>-0.0\<close>. Python does not expose the payload of a NaN. The doubles
  are the values whose magnitude rounding leaves unchanged; what is proved below for all
  values of the type holds for them in particular.
\<close>

datatype pyfloat = NaN | Inf bool | Fin bool rat

text \<open>A piece of text is the list of its code points, so \<open>ord(c)\<close> is the element itself.\<close>

type_synonym pystr = "nat list"

subsection \<open>Rounding to binary64\<close>

definition pow2 :: "int \<Rightarrow> rat" where
  "pow2 e = (if 0 \<le> e then 2 ^ nat e else 1 / 2 ^ nat (- e))"

definition pow10 :: "int \<Rightarrow> rat" where
  "pow10 e = (if 0 \<le> e then 10 ^ nat e else 1 / 10 ^ nat (- e))"

text \<open>\<open>ndigits b n\<close> is the number of digits of \<open>n\<close> in base \<open>b\<close> (none for \<open>0\<close>).\<close>

function ndigits :: "nat \<Rightarrow> nat \<Rightarrow> nat" where
  "ndigits b n = (if n = 0 \<or> b < 2 then 0 else Suc (ndigits b (n div b)))"
  by pat_completeness auto
termination
  by (relation "measure snd") auto

declare ndigits.simps [simp del]

text \<open>\<open>ilog b q\<close> is \<open>\<lfloor>log\<^sub>b q\<rfloor>\<close> for a positive rational \<open>q\<close>.\<close>

definition ilog :: "nat \<Rightarrow> rat \<Rightarrow> int" where
  "ilog b q = (if 1 \<le> q then int (ndigits b (nat \<lfloor>q\<rfloor>)) - 1
               else - int (ndigits b (nat (\<lceil>1 / q\<rceil> - 1))))"

definition round_half_even :: "rat \<Rightarrow> int" where
  "round_half_even q =
     (let f = \<lfloor>q\<rfloor>; r = q - of_int f
      in if r < 1 / 2 then f else if 1 / 2 < r then f + 1 else if even f then f else f + 1)"

text \<open>
  Round-to-nearest, ties-to-even, of a positive magnitude \<open>q\<close>: the doubles around \<open>q\<close>
  are the multiples of \<open>2 ^ (max \<lfloor>log\<^sub>2 q\<rfloor> (-1022) - 52)\<close>.
\<close>

definition round_mag :: "rat \<Rightarrow> rat" where
  "round_mag q =
     (let e = max (ilog 2 q) (- 1022) - 52
      in of_int (round_half_even (q / pow2 e)) * pow2 e)"

text \<open>The double with sign \<open>s\<close> nearest to the magnitude \<open>q\<close>; \<open>2 ^ 1024\<close> overflows.\<close>

definition round_to_double :: "bool \<Rightarrow> rat \<Rightarrow> pyfloat" where
  "round_to_double s q =
     (if q = 0 then Fin s 0
      else let r = round_mag q in if pow2 1024 \<le> r then Inf s else Fin s r)"

text \<open>A decimal literal such as \<open>0.9\<close> denotes the double nearest to it.\<close>

definition float_lit :: "rat \<Rightarrow> pyfloat" where
  "float_lit q = round_to_double False q"

subsection \<open>Float operations\<close>

definition sval :: "bool \<Rightarrow> rat \<Rightarrow> rat" where
  "sval s q = (if s then - q else q)"

fun isnan :: "pyfloat \<Rightarrow> bool" where
  "isnan NaN = True"
| "isnan _ = False"

fun isinf :: "pyfloat \<Rightarrow> bool" where
  "isinf (Inf _) = True"
| "isinf _ = False"

fun fabs :: "pyfloat \<Rightarrow> pyfloat" where
  "fabs NaN = NaN"
| "fabs (Inf _) = Inf False"
| "fabs (Fin _ q) = Fin False q"

fun fneg :: "pyfloat \<Rightarrow> pyfloat" where
  "fneg NaN = NaN"
| "fneg (Inf s) = Inf (\<not> s)"
| "fneg (Fin s q) = Fin (\<not> s) q"

text \<open>\<open>x < y\<close>: false whenever an operand is a NaN; the two zeros compare equal.\<close>

fun flt :: "pyfloat \<Rightarrow> pyfloat \<Rightarrow> bool" where
  "flt NaN _ = False"
| "flt _ NaN = False"
| "flt (Inf s) (Inf t) = (s \<and> \<not> t)"
| "flt (Inf s) (Fin _ _) = s"
| "flt (Fin _ _) (Inf t) = (\<not> t)"
| "flt (Fin s a) (Fin t b) = (sval s a < sval t b)"

definition fgt :: "pyfloat \<Rightarrow> pyfloat \<Rightarrow> bool" where
  "fgt x y = flt y x"

fun fmul :: "pyfloat \<Rightarrow> pyfloat \<Rightarrow> pyfloat" where
  "fmul NaN _ = NaN"
| "fmul _ NaN = NaN"
| "fmul (Inf s) (Inf t) = Inf (s \<noteq> t)"
| "fmul (Inf s) (Fin t b) = (if b = 0 then NaN else Inf (s \<noteq> t))"
| "fmul (Fin s a) (Inf t) = (if a = 0 then NaN else Inf (s \<noteq> t))"
| "fmul (Fin s a) (Fin t b) = round_to_double (s \<noteq> t) (a * b)"

fun fadd :: "pyfloat \<Rightarrow> pyfloat \<Rightarrow> pyfloat" where
  "fadd NaN _ = NaN"
| "fadd _ NaN = NaN"
| "fadd (Inf s) (Inf t) = (if s = t then Inf s else NaN)"
| "fadd (Inf s) (Fin _ _) = Inf s"
| "fadd (Fin _ _) (Inf t) = Inf t"
| "fadd (Fin s a) (Fin t b) =
     (let v = sval s a + sval t b
      in if v = 0 then Fin (s \<and> t) 0 else round_to_double (v < 0) \<bar>v\<bar>)"

text \<open>Python's float division raises on a zero divisor before anything else.\<close>

fun fdiv :: "pyfloat \<Rightarrow> pyfloat \<Rightarrow> error + pyfloat" where
  "fdiv x (Fin t b) =
     (if b = 0 then Inl ZeroDivisionError
      else Inr (case x of NaN \<Rightarrow> NaN | Inf s \<Rightarrow> Inf (s \<noteq> t)
                | Fin s a \<Rightarrow> round_to_double (s \<noteq> t) (a / b)))"
| "fdiv _ NaN = Inr NaN"
| "fdiv NaN (Inf _) = Inr NaN"
| "fdiv (Inf _) (Inf _) = Inr NaN"
| "fdiv (Fin s _) (Inf t) = Inr (Fin (s \<noteq> t) 0)"

text \<open>The largest natural number whose square is at most \<open>n\<close>.\<close>

function isqrt :: "nat \<Rightarrow> nat" where
  "isqrt n = (if n < 2 then n
              else let r = 2 * isqrt (n div 4) in if (r + 1) * (r + 1) \<le> n then r + 1 else r)"
  by pat_completeness auto
termination
  by (relation "measure id") auto

declare isqrt.simps [simp del]

text \<open>
  The correctly rounded square root of a positive magnitude: with \<open>e\<close> the exponent of the
  spacing around the root, the root of \<open>q / 4 ^ e\<close> is rounded to an integer.
\<close>

definition sqrt_to_double :: "rat \<Rightarrow> pyfloat" where
  "sqrt_to_double q =
     (let e = max (ilog 2 q div 2) (- 1022) - 52;
          a = q / pow2 (2 * e);
          n = int (isqrt (nat \<lfloor>a\<rfloor>));
          h = (of_int n + 1 / 2) * (of_int n + 1 / 2);
          m = (if a < h then n else if h < a then n + 1 else if even n then n else n + 1);
          r = of_int m * pow2 e
      in if pow2 1024 \<le> r then Inf False else Fin False r)"

text \<open>\<open>math.sqrt\<close>: a ValueError (math domain error) below zero, \<open>-0.0\<close> for \<open>-0.0\<close>.\<close>

fun msqrt :: "pyfloat \<Rightarrow> error + pyfloat" where
  "msqrt NaN = Inr NaN"
| "msqrt (Inf s) = (if s then Inl ValueError else Inr (Inf False))"
| "msqrt (Fin s q) =
     (if q = 0 then Inr (Fin s 0) else if s then Inl ValueError else Inr (sqrt_to_double q))"

text \<open>Converting an \<open>int\<close> for mixed arithmetic raises OverflowError beyond the doubles.\<close>

definition int_to_float :: "int \<Rightarrow> error + pyfloat" where
  "int_to_float i =
     (case round_to_double (i < 0) \<bar>of_int i\<bar> of
        Inf _ \<Rightarrow> Inl OverflowError
      | x \<Rightarrow> Inr x)"

text \<open>\<open>i / y\<close> for an \<open>int\<close> \<open>i\<close> and a float \<open>y\<close>.\<close>

definition int_truediv :: "int \<Rightarrow> pyfloat \<Rightarrow> error + pyfloat" where
  "int_truediv i y = (case int_to_float i of Inl e \<Rightarrow> Inl e | Inr x \<Rightarrow> fdiv x y)"

text \<open>
  \<open>sum(...)\<close> of floats: the start value is the \<open>int\<close> \<open>0\<close>, which converts to \<open>0.0\<close>
  at the first addition, and the items are added from left to right. (The compensated
  summation that newer interpreters apply to the low-order bits is not modelled.)
\<close>

definition py_sum :: "pyfloat list \<Rightarrow> pyfloat" where
  "py_sum xs = foldl fadd (Fin False 0) xs"

text \<open>
  \<open>min\<close> and \<open>max\<close> raise ValueError on an empty sequence; otherwise they keep the first
  item and replace it by a later one that compares strictly below (above) it.
\<close>

fun py_min :: "pyfloat list \<Rightarrow> error + pyfloat" where
  "py_min [] = Inl ValueError"
| "py_min (x # xs) = Inr (foldl (\<lambda>cur item. if flt item cur then item else cur) x xs)"

fun py_max :: "pyfloat list \<Rightarrow> error + pyfloat" where
  "py_max [] = Inl ValueError"
| "py_max (x # xs) = Inr (foldl (\<lambda>cur item. if fgt item cur then item else cur) x xs)"

text \<open>
  \<open>xs[i]\<close>: the position that the subscript \<open>i\<close> selects in a list of length \<open>n\<close>, where
  \<open>-n .. -1\<close> select from the end, or IndexError.
\<close>

definition py_index :: "'a list \<Rightarrow> int \<Rightarrow> error + nat" where
  "py_index xs i =
     (if 0 \<le> i \<and> i < int (length xs) then Inr (nat i)
      else if - int (length xs) \<le> i \<and> i < 0 then Inr (nat (int (length xs) + i))
      else Inl IndexError)"

subsection \<open>Formatting\<close>

definition digit_char :: "nat \<Rightarrow> char" where
  "digit_char d = ''0123456789'' ! d"

text \<open>\<open>str(n)\<close> for a non-negative \<open>int\<close>.\<close>

function show_nat :: "nat \<Rightarrow> string" where
  "show_nat n = (if n < 10 then [digit_char n] else show_nat (n div 10) @ [digit_char (n mod 10)])"
  by pat_completeness auto
termination
  by (relation "measure id") auto

declare show_nat.simps [simp del]

definition strip_zeros :: "string \<Rightarrow> string" where
  "strip_zeros ds = rev (dropWhile (\<lambda>c. c = CHR ''0'') (rev ds))"

text \<open>
  The six significant decimal digits of a positive magnitude, correctly rounded (ties to
  even), and the position of the decimal point relative to their start.
\<close>

definition digits6 :: "rat \<Rightarrow> nat \<times> int" where
  "digits6 q =
     (let e = ilog 10 q; n = round_half_even (q / pow10 (e - 5))
      in if n = 1000000 then (100000, e + 2) else (nat n, e + 1))"

text \<open>
  The format \<open>{x:.6}\<close> of a float: the general format with precision 6 and no
  presentation type. Trailing zeros are dropped; fixed-point notation keeps at least one
  digit after the point and is used while the decimal point position is in \<open>-3 .. 5\<close>;
  otherwise the exponent is written with a sign and at least two digits.
\<close>

definition fmt6_mag :: "rat \<Rightarrow> string" where
  "fmt6_mag q =
     (case digits6 q of (n, decpt) \<Rightarrow>
        let ds = strip_zeros (show_nat n); k = int (length ds)
        in if decpt \<le> - 4 \<or> 5 < decpt then
             take 1 ds @ (if 1 < k then ''.'' @ drop 1 ds else [])
             @ ''e'' @ (if decpt - 1 < 0 then ''-'' else ''+'')
             @ (let x = show_nat (nat \<bar>decpt - 1\<bar>) in if length x < 2 then CHR ''0'' # x else x)
           else if decpt \<le> 0 then ''0.'' @ replicate (nat (- decpt)) CHR ''0'' @ ds
           else if k \<le> decpt then ds @ replicate (nat (decpt - k)) CHR ''0'' @ ''.0''
           else take (nat decpt) ds @ ''.'' @ drop (nat decpt) ds)"

fun fmt6 :: "pyfloat \<Rightarrow> string" where
  "fmt6 NaN = ''nan''"
| "fmt6 (Inf s) = (if s then ''-inf'' else ''inf'')"
| "fmt6 (Fin s q) = (if s then ''-'' else []) @ (if q = 0 then ''0.0'' else fmt6_mag q)"

section \<open>The validator\<close>

text \<open>\<open>calculate_norm\<close>: \<open>math.sqrt(sum(x * x for x in embedding))\<close>.\<close>

definition calculate_norm :: "pyfloat list \<Rightarrow> error + pyfloat" where
  "calculate_norm embedding = msqrt (py_sum (map (\<lambda>x. fmul x x) embedding))"

text \<open>The issue strings, as the f-strings of \<open>validate_embedding\<close> build them.\<close>

definition dim_issue :: "nat \<Rightarrow> string" where
  "dim_issue n = ''Expected 1024 dimensions, got '' @ show_nat n"

definition nan_issue :: "nat \<Rightarrow> string" where
  "nan_issue i = ''NaN value at index '' @ show_nat i"

definition inf_issue :: "nat \<Rightarrow> string" where
  "inf_issue i = ''Infinite value at index '' @ show_nat i"

definition norm_issue :: "pyfloat \<Rightarrow> string" where
  "norm_issue nrm = ''Norm is '' @ fmt6 nrm @ '', expected ~1.0 (normalized)''"

definition range_issue :: "pyfloat \<Rightarrow> pyfloat \<Rightarrow> string" where
  "range_issue min_val max_val =
     ''Values out of reasonable range: ['' @ fmt6 min_val @ '', '' @ fmt6 max_val @ '']''"

definition zero_issue :: string where
  "zero_issue = ''All values are zero (or very close to zero)''"

text \<open>The loop over \<open>enumerate(embedding)\<close> that reports NaN and infinite entries.\<close>

fun check_finite :: "(nat \<times> pyfloat) list \<Rightarrow> string list \<Rightarrow> string list" where
  "check_finite [] issues = issues"
| "check_finite ((i, val) # rest) issues =
     (let issues1 = (if isnan val then issues @ [nan_issue i] else issues);
          issues2 = (if isinf val then issues1 @ [inf_issue i] else issues1)
      in check_finite rest issues2)"

text \<open>
  \<open>validate_embedding\<close>. The parameter \<open>text\<close> of the source is never read and is left
  out. The five checks run in the order of the source; the only statements that can
  raise are \<open>calculate_norm\<close>, \<open>min\<close> and \<open>max\<close>.
\<close>

definition validate_embedding :: "pyfloat list \<Rightarrow> error + (bool \<times> string list)" where
  "validate_embedding embedding =
     (let issues0 = [];
          issues1 = (if length embedding \<noteq> 1024
                     then issues0 @ [dim_issue (length embedding)] else issues0);
          issues2 = check_finite (enumerate 0 embedding) issues1
      in case calculate_norm embedding of
           Inl e \<Rightarrow> Inl e
         | Inr nrm \<Rightarrow>
            (let issues3 = (if flt nrm (float_lit (9 / 10)) \<or> fgt nrm (float_lit (11 / 10))
                            then issues2 @ [norm_issue nrm] else issues2)
             in case py_min embedding of
                  Inl e \<Rightarrow> Inl e
                | Inr min_val \<Rightarrow>
                   (case py_max embedding of
                      Inl e \<Rightarrow> Inl e
                    | Inr max_val \<Rightarrow>
                       (let issues4 =
                              (if flt min_val (fneg (float_lit 10)) \<or> fgt max_val (float_lit 10)
                               then issues3 @ [range_issue min_val max_val] else issues3);
                            all_zero =
                              list_all (\<lambda>x. flt (fabs x) (float_lit (1 / 1000000))) embedding;
                            issues5 = (if all_zero then issues4 @ [zero_issue] else issues4)
                        in Inr (length issues5 = 0, issues5)))))"

section \<open>The mock generator\<close>

text \<open>
  The first loop of \<open>generate_mock_embedding\<close>, over \<open>enumerate(text)\<close>. The augmented
  assignment reads \<open>embedding[idx]\<close> before it evaluates its right-hand side.
\<close>

fun add_chars :: "int \<Rightarrow> (nat \<times> nat) list \<Rightarrow> pyfloat list \<Rightarrow> error + pyfloat list" where
  "add_chars dimensions [] embedding = Inr embedding"
| "add_chars dimensions ((i, c) # rest) embedding =
     (if dimensions = 0 then Inl ZeroDivisionError
      else let idx = int i mod dimensions; char_val = int c mod 255
           in case py_index embedding idx of
                Inl e \<Rightarrow> Inl e
              | Inr k \<Rightarrow>
                 (case int_truediv char_val (float_lit 255) of
                    Inl e \<Rightarrow> Inl e
                  | Inr t \<Rightarrow>
                      add_chars dimensions rest
                        (embedding[k := fadd (embedding ! k) (fmul t (float_lit (1 / 10)))])))"

text \<open>The second loop, over \<open>range(dimensions)\<close>.\<close>

fun add_hash :: "int \<Rightarrow> nat list \<Rightarrow> pyfloat list \<Rightarrow> error + pyfloat list" where
  "add_hash text_hash [] embedding = Inr embedding"
| "add_hash text_hash (i # rest) embedding =
     (case py_index embedding (int i) of
        Inl e \<Rightarrow> Inl e
      | Inr k \<Rightarrow>
         (case int_truediv ((int i + text_hash) mod 100) (float_lit 1000) of
            Inl e \<Rightarrow> Inl e
          | Inr t \<Rightarrow> add_hash text_hash rest (embedding[k := fadd (embedding ! k) t])))"

text \<open>The list comprehension \<open>[x / norm for x in embedding]\<close>.\<close>

fun divide_all :: "pyfloat list \<Rightarrow> pyfloat \<Rightarrow> error + pyfloat list" where
  "divide_all [] nrm = Inr []"
| "divide_all (x # xs) nrm =
     (case fdiv x nrm of
        Inl e \<Rightarrow> Inl e
      | Inr y \<Rightarrow> (case divide_all xs nrm of Inl e \<Rightarrow> Inl e | Inr ys \<Rightarrow> Inr (y # ys)))"

text \<open>
  \<open>[x] * n\<close> on a 64-bit interpreter. A count that does not fit a signed 64-bit index
  raises OverflowError; a negative count gives the empty list; a count of \<open>2 ^ 60\<close> or more
  raises MemoryError whatever the machine (the array of 8-byte references would exceed
  the index range); and below that the list must be allocated, which raises MemoryError
  when memory does not suffice.

  How much memory there is belongs to the environment of a call and not to the script,
  so it is a parameter of the model: \<open>capacity\<close> is the largest \<open>dimensions\<close> for which the
  allocations of one call of the generator succeed (the list, one float per element, and
  the list of the same length that the normalisation builds). The check is made where the
  list is created. For \<open>dimensions \<ge> 1\<close> the code raises nothing else, so an allocation
  that fails later in the call gives the same outcome; for \<open>dimensions \<le> 0\<close> the list is
  empty and no allocation fails.
\<close>

definition list_repeat :: "nat \<Rightarrow> 'a \<Rightarrow> int \<Rightarrow> error + 'a list" where
  "list_repeat capacity x n =
     (if n < - (2 ^ 63) \<or> 2 ^ 63 \<le> n then Inl OverflowError
      else if 2 ^ 60 \<le> n \<or> int capacity < n then Inl MemoryError
      else Inr (replicate (nat n) x))"

text \<open>
  The vector before normalisation: \<open>[0.0] * dimensions\<close> after both loops.
  \<open>range(dimensions)\<close> is empty for \<open>dimensions \<le> 0\<close>.
\<close>

definition raw_embedding :: "nat \<Rightarrow> pystr \<Rightarrow> int \<Rightarrow> error + pyfloat list" where
  "raw_embedding capacity text dimensions =
     (case list_repeat capacity (Fin False 0) dimensions of
        Inl e \<Rightarrow> Inl e
      | Inr embedding \<Rightarrow>
         (case add_chars dimensions (enumerate 0 text) embedding of
            Inl e \<Rightarrow> Inl e
          | Inr embedding1 \<Rightarrow>
             (let text_hash = sum_list (map int text)
              in add_hash text_hash [0..<nat dimensions] embedding1)))"

text \<open>
  \<open>generate_mock_embedding\<close>, with the memory available to the call as its first
  argument.
\<close>

definition generate_mock_embedding :: "nat \<Rightarrow> pystr \<Rightarrow> int \<Rightarrow> error + pyfloat list" where
  "generate_mock_embedding capacity text dimensions =
     (case raw_embedding capacity text dimensions of
        Inl e \<Rightarrow> Inl e
      | Inr embedding \<Rightarrow>
         (case calculate_norm embedding of
            Inl e \<Rightarrow> Inl e
          | Inr nrm \<Rightarrow>
              if fgt nrm (Fin False 0) then divide_all embedding nrm else Inr embedding))"

section \<open>The generator as the specification words it\<close>

text \<open>
  The reference the source is compared with follows the five steps of the specification:
  a vector of \<open>dimensions\<close> zeros; for each character at position \<open>i\<close> the value
  \<open>(codepoint(c) mod 255) / 255.0 * 0.1\<close> added at index \<open>i mod dimensions\<close>, in the order
  of the positions; for every index \<open>j\<close> the value \<open>((j + textHash) mod 100) / 1000.0\<close>
  added; every element divided by the L2 norm when that norm is positive.
\<close>

text \<open>
  The arithmetic of the specification is total: these are the operations above, with a
  NaN where Python would raise.
\<close>

definition quot :: "pyfloat \<Rightarrow> pyfloat \<Rightarrow> pyfloat" where
  "quot x y = (case fdiv x y of Inl _ \<Rightarrow> NaN | Inr z \<Rightarrow> z)"

definition root :: "pyfloat \<Rightarrow> pyfloat" where
  "root x = (case msqrt x of Inl _ \<Rightarrow> NaN | Inr z \<Rightarrow> z)"

definition of_small_int :: "int \<Rightarrow> pyfloat" where
  "of_small_int i = (case int_to_float i of Inl _ \<Rightarrow> NaN | Inr z \<Rightarrow> z)"

definition spec_char_term :: "nat \<Rightarrow> pyfloat" where
  "spec_char_term c = fmul (quot (of_small_int (int c mod 255)) (float_lit 255)) (float_lit (1 / 10))"

definition spec_hash_term :: "pystr \<Rightarrow> nat \<Rightarrow> pyfloat" where
  "spec_hash_term text j =
     quot (of_small_int ((int j + sum_list (map int text)) mod 100)) (float_lit 1000)"

definition spec_raw_vector :: "pystr \<Rightarrow> nat \<Rightarrow> pyfloat list" where
  "spec_raw_vector text d =
     map (\<lambda>j. fadd (foldl fadd (Fin False 0)
                     (map (\<lambda>p. spec_char_term (snd p))
                        (filter (\<lambda>p. fst p mod d = j) (enumerate 0 text))))
                (spec_hash_term text j))
       [0..<d]"

definition spec_norm :: "pyfloat list \<Rightarrow> pyfloat" where
  "spec_norm v = root (foldl fadd (Fin False 0) (map (\<lambda>x. fmul x x) v))"

definition spec_generateMock :: "pystr \<Rightarrow> nat \<Rightarrow> pyfloat list" where
  "spec_generateMock text d =
     (let v = spec_raw_vector text d; n = spec_norm v
      in if fgt n (Fin False 0) then map (\<lambda>x. quot x n) v else v)"

section \<open>Notions used to state the properties\<close>

text \<open>
  The issues each of the five checks contributes, as functions of the values the check
  reads: the vector, its norm, and its minimum and maximum.
\<close>

definition dim_part :: "pyfloat list \<Rightarrow> string list" where
  "dim_part v = (if length v \<noteq> 1024 then [dim_issue (length v)] else [])"

definition finite_part :: "pyfloat list \<Rightarrow> string list" where
  "finite_part v = check_finite (enumerate 0 v) []"

definition norm_part :: "pyfloat \<Rightarrow> string list" where
  "norm_part nrm =
     (if flt nrm (float_lit (9 / 10)) \<or> fgt nrm (float_lit (11 / 10)) then [norm_issue nrm] else [])"

definition range_part :: "pyfloat \<Rightarrow> pyfloat \<Rightarrow> string list" where
  "range_part min_val max_val =
     (if flt min_val (fneg (float_lit 10)) \<or> fgt max_val (float_lit 10)
      then [range_issue min_val max_val] else [])"

definition zero_part :: "pyfloat list \<Rightarrow> string list" where
  "zero_part v =
     (if list_all (\<lambda>x. flt (fabs x) (float_lit (1 / 1000000))) v then [zero_issue] else [])"

text \<open>\<open>x <= y\<close> on floats, for stating closed intervals.\<close>

fun fle :: "pyfloat \<Rightarrow> pyfloat \<Rightarrow> bool" where
  "fle NaN _ = False"
| "fle _ NaN = False"
| "fle (Inf s) (Inf t) = (s \<or> \<not> t)"
| "fle (Inf s) (Fin _ _) = s"
| "fle (Fin _ _) (Inf t) = (\<not> t)"
| "fle (Fin s a) (Fin t b) = (sval s a \<le> sval t b)"

text \<open>A float whose sign bit is clear (or a NaN): what a sum of squares can be.\<close>

fun sign_clear :: "pyfloat \<Rightarrow> bool" where
  "sign_clear NaN = True"
| "sign_clear (Inf s) = (\<not> s)"
| "sign_clear (Fin s q) = (\<not> s \<and> 0 \<le> q)"

text \<open>Bounds on a non-negative float: at least \<open>b\<close> (or infinite), finite and at most \<open>b\<close>.\<close>

fun at_least :: "rat \<Rightarrow> pyfloat \<Rightarrow> bool" where
  "at_least b NaN = False"
| "at_least b (Inf s) = (\<not> s)"
| "at_least b (Fin s r) = (\<not> s \<and> b \<le> r)"

fun at_most :: "rat \<Rightarrow> pyfloat \<Rightarrow> bool" where
  "at_most b (Fin s r) = (\<not> s \<and> 0 \<le> r \<and> r \<le> b)"
| "at_most b _ = False"

text \<open>\<open>x == y\<close> on floats, and the equality of two lists of floats it induces.\<close>

fun feq :: "pyfloat \<Rightarrow> pyfloat \<Rightarrow> bool" where
  "feq NaN _ = False"
| "feq _ NaN = False"
| "feq (Inf s) (Inf t) = (s = t)"
| "feq (Inf _) (Fin _ _) = False"
| "feq (Fin _ _) (Inf _) = False"
| "feq (Fin s a) (Fin t b) = (sval s a = sval t b)"

definition py_list_eq :: "pyfloat list \<Rightarrow> pyfloat list \<Rightarrow> bool" where
  "py_list_eq xs ys = list_all2 feq xs ys"

text \<open>A count for which \<open>[0.0] * dimensions\<close> succeeds in the given environment.\<close>

definition allocatable :: "nat \<Rightarrow> int \<Rightarrow> bool" where
  "allocatable capacity dimensions \<longleftrightarrow>
     - (2 ^ 63) \<le> dimensions \<and> dimensions < 2 ^ 60 \<and> dimensions \<le> int capacity"

text \<open>
  The inputs on which every term the generator adds is zero: one dimension, every code
  point a multiple of 255 and their sum a multiple of 100.
\<close>

definition degenerate :: "pystr \<Rightarrow> int \<Rightarrow> bool" where
  "degenerate text dimensions \<longleftrightarrow>
     dimensions = 1 \<and> list_all (\<lambda>c. c mod 255 = 0) text \<and> sum_list (map int text) mod 100 = 0"

section \<open>Facts about the float operations\<close>

lemma pow2_pos [simp]: "0 < pow2 e"
  by (simp add: pow2_def)

lemma round_half_even_nonneg: "0 \<le> q \<Longrightarrow> 0 \<le> round_half_even q"
  by (auto simp: round_half_even_def Let_def)

lemma round_half_even_ge_floor: "\<lfloor>q\<rfloor> \<le> round_half_even q"
  by (auto simp: round_half_even_def Let_def)

lemma round_half_even_le_floor: "round_half_even q \<le> \<lfloor>q\<rfloor> + 1"
  by (auto simp: round_half_even_def Let_def)

lemma round_half_even_of_int [simp]: "round_half_even (of_int n) = n"
  by (simp add: round_half_even_def)

lemma round_mag_nonneg: "0 \<le> q \<Longrightarrow> 0 \<le> round_mag q"
  by (simp add: round_mag_def Let_def round_half_even_nonneg less_imp_le)

lemma round_to_double_cases:
  "(\<exists>r. round_to_double s q = Fin s r \<and> (0 \<le> q \<longrightarrow> 0 \<le> r)) \<or> round_to_double s q = Inf s"
  by (auto simp: round_to_double_def Let_def round_mag_nonneg)

lemma sign_clear_round: "0 \<le> q \<Longrightarrow> sign_clear (round_to_double False q)"
  using round_to_double_cases [of False q] by auto

lemma sign_clear_square: "sign_clear (fmul x x)"
  by (cases x) (auto intro: sign_clear_round)

lemma sign_clear_fadd: "sign_clear x \<Longrightarrow> sign_clear y \<Longrightarrow> sign_clear (fadd x y)"
  by (cases x; cases y) (auto simp: sval_def Let_def intro!: sign_clear_round)

lemma sign_clear_foldl:
  "sign_clear a \<Longrightarrow> list_all sign_clear xs \<Longrightarrow> sign_clear (foldl fadd a xs)"
  by (induction xs arbitrary: a) (auto simp: sign_clear_fadd)

lemma sign_clear_sum_squares: "sign_clear (py_sum (map (\<lambda>x. fmul x x) xs))"
  unfolding py_sum_def
  by (rule sign_clear_foldl) (auto simp: list_all_iff sign_clear_square)

lemma msqrt_sign_clear: "sign_clear x \<Longrightarrow> \<exists>y. msqrt x = Inr y"
  by (cases x) auto

lemma calculate_norm_total: "\<exists>n. calculate_norm v = Inr n"
  unfolding calculate_norm_def by (rule msqrt_sign_clear) (rule sign_clear_sum_squares)

subsection \<open>Powers of two and the binary logarithm\<close>

lemma pow2_powi: "pow2 e = 2 powi e"
  by (simp add: pow2_def power_int_def inverse_eq_divide power_one_over)

lemma pow2_add: "pow2 (a + b) = pow2 a * pow2 b"
  by (simp add: pow2_powi power_int_add)

lemma pow2_diff: "pow2 (a - b) = pow2 a / pow2 b"
  by (simp add: pow2_powi power_int_diff)

lemma pow2_mono: "a \<le> b \<Longrightarrow> pow2 a \<le> pow2 b"
  by (simp add: pow2_powi power_int_increasing)

lemma pow2_strict_mono: "a < b \<Longrightarrow> pow2 a < pow2 b"
  by (simp add: pow2_powi power_int_strict_increasing)

lemma pow2_le_iff: "pow2 a \<le> pow2 b \<longleftrightarrow> a \<le> b"
  using pow2_mono [of a b] pow2_strict_mono [of b a] by (auto simp: not_le [symmetric])

lemma pow2_less_iff: "pow2 a < pow2 b \<longleftrightarrow> a < b"
  using pow2_strict_mono [of a b] pow2_mono [of b a] by (auto simp: not_less [symmetric])

lemma pow2_nat: "pow2 (int n) = 2 ^ n"
  by (simp add: pow2_def)

lemma pow2_0 [simp]: "pow2 0 = 1"
  by (simp add: pow2_def)

lemma pow2_int: "0 \<le> e \<Longrightarrow> pow2 e = of_int (2 ^ nat e)"
  by (simp add: pow2_def)

lemma ndigits_bounds:
  "0 < n \<Longrightarrow> 2 ^ (ndigits 2 n - 1) \<le> n \<and> n < 2 ^ ndigits 2 n"
proof (induction n rule: less_induct)
  case (less n)
  have nd: "ndigits 2 n = Suc (ndigits 2 (n div 2))"
    using less.prems by (subst ndigits.simps) simp
  show ?case
  proof (cases "n div 2 = 0")
    case True
    with less.prems have n1: "n = 1" by presburger
    have "ndigits 2 n = 1" using nd True by (simp add: ndigits.simps [of 2 0])
    with n1 show ?thesis by simp
  next
    case False
    then have pos: "0 < n div 2" by simp
    have lt: "n div 2 < n" using less.prems by simp
    from less.IH [OF lt pos] have
      lo: "2 ^ (ndigits 2 (n div 2) - 1) \<le> n div 2" and hi: "n div 2 < 2 ^ ndigits 2 (n div 2)"
      by simp_all
    have d1: "0 < ndigits 2 (n div 2)"
      using pos by (subst ndigits.simps) simp
    have "(2::nat) ^ ndigits 2 (n div 2) = 2 * 2 ^ (ndigits 2 (n div 2) - 1)"
      using d1 by (cases "ndigits 2 (n div 2)") simp_all
    with lo have "2 ^ ndigits 2 (n div 2) \<le> 2 * (n div 2)" by simp
    also have "\<dots> \<le> n" by simp
    finally have a: "2 ^ (ndigits 2 n - 1) \<le> n" by (simp add: nd)
    from hi have "n div 2 + 1 \<le> 2 ^ ndigits 2 (n div 2)" by simp
    then have "2 * (n div 2 + 1) \<le> 2 * 2 ^ ndigits 2 (n div 2)" by simp
    moreover have "n < 2 * (n div 2 + 1)" by presburger
    ultimately have b: "n < 2 ^ ndigits 2 n" by (simp add: nd)
    from a b show ?thesis ..
  qed
qed

lemma ilog2_bounds:
  assumes "0 < q"
  shows "pow2 (ilog 2 q) \<le> q" and "q < pow2 (ilog 2 q + 1)"
proof -
  have "pow2 (ilog 2 q) \<le> q \<and> q < pow2 (ilog 2 q + 1)"
  proof (cases "1 \<le> q")
    case True
    define n where "n = nat \<lfloor>q\<rfloor>"
    have npos: "0 < n" using True by (simp add: n_def)
    have nq: "of_nat n \<le> q" "q < of_nat n + 1"
      using True by (simp_all add: n_def) linarith+
    from ndigits_bounds [OF npos] have
      lo: "2 ^ (ndigits 2 n - 1) \<le> n" and hi: "n < 2 ^ ndigits 2 n" by simp_all
    have d1: "0 < ndigits 2 n" using npos by (subst ndigits.simps) simp
    have il: "ilog 2 q = int (ndigits 2 n - 1)"
      using True d1 by (simp add: ilog_def n_def)
    have "pow2 (ilog 2 q) = of_nat (2 ^ (ndigits 2 n - 1))"
      by (simp add: il pow2_nat)
    also have "\<dots> \<le> of_nat n" using lo by (simp only: of_nat_le_iff)
    finally have a: "pow2 (ilog 2 q) \<le> q" using nq by simp
    have "ilog 2 q + 1 = int (ndigits 2 n)" using d1 by (simp add: il)
    then have "pow2 (ilog 2 q + 1) = of_nat (2 ^ ndigits 2 n)"
      by (simp add: pow2_nat)
    moreover from hi have "n + 1 \<le> 2 ^ ndigits 2 n" by simp
    then have "(of_nat (n + 1) :: rat) \<le> of_nat (2 ^ ndigits 2 n)" by (simp only: of_nat_le_iff)
    ultimately have b: "q < pow2 (ilog 2 q + 1)" using nq by simp
    from a b show ?thesis ..
  next
    case False
    then have q1: "q < 1" by simp
    define m where "m = nat (\<lceil>1 / q\<rceil> - 1)"
    have big: "1 < 1 / q" using assms q1 by simp
    then have c2: "2 \<le> \<lceil>1 / q\<rceil>" by linarith
    then have mpos: "0 < m" by (simp add: m_def)
    have mq: "of_nat m < 1 / q" "1 / q \<le> of_nat m + 1"
      using c2 by (simp_all add: m_def) linarith+
    from ndigits_bounds [OF mpos] have
      lo: "2 ^ (ndigits 2 m - 1) \<le> m" and hi: "m < 2 ^ ndigits 2 m" by simp_all
    have d1: "0 < ndigits 2 m" using mpos by (subst ndigits.simps) simp
    have il: "ilog 2 q = - int (ndigits 2 m)"
      using False by (simp add: ilog_def m_def)
    from hi have "m + 1 \<le> 2 ^ ndigits 2 m" by simp
    then have "(of_nat (m + 1) :: rat) \<le> of_nat (2 ^ ndigits 2 m)" by (simp only: of_nat_le_iff)
    with mq have "1 / q \<le> 2 ^ ndigits 2 m" by simp
    then have "1 \<le> q * 2 ^ ndigits 2 m"
      using assms by (simp add: field_simps)
    then have a: "pow2 (ilog 2 q) \<le> q"
      using d1 by (simp add: il pow2_def field_simps)
    have "(of_nat (2 ^ (ndigits 2 m - 1)) :: rat) \<le> of_nat m" using lo by (simp only: of_nat_le_iff)
    moreover have "(of_nat (2 ^ (ndigits 2 m - 1)) :: rat) = 2 ^ (ndigits 2 m - 1)" by simp
    ultimately have "(2::rat) ^ (ndigits 2 m - 1) < 1 / q" using mq(1) by linarith
    then have lt: "q * 2 ^ (ndigits 2 m - 1) < 1"
      using assms by (simp add: field_simps)
    have "ilog 2 q + 1 = - int (ndigits 2 m - 1)" using d1 by (simp add: il)
    then have "pow2 (ilog 2 q + 1) = 1 / 2 ^ (ndigits 2 m - 1)"
      by (simp add: pow2_def del: of_nat_diff)
    moreover from lt have "q < 1 / 2 ^ (ndigits 2 m - 1)" by (simp add: field_simps)
    ultimately have b: "q < pow2 (ilog 2 q + 1)" by simp
    from a b show ?thesis ..
  qed
  then show "pow2 (ilog 2 q) \<le> q" and "q < pow2 (ilog 2 q + 1)" by simp_all
qed

lemma ilog2_unique:
  assumes "pow2 j \<le> q" and "q < pow2 (j + 1)"
  shows "ilog 2 q = j"
proof -
  have qpos: "0 < q" using assms(1) pow2_pos [of j] by linarith
  note b = ilog2_bounds [OF qpos]
  have "pow2 j < pow2 (ilog 2 q + 1)" using assms(1) b(2) by linarith
  then have 1: "j \<le> ilog 2 q" by (simp add: pow2_less_iff)
  have "pow2 (ilog 2 q) < pow2 (j + 1)" using assms(2) b(1) by linarith
  then have 2: "ilog 2 q \<le> j" by (simp add: pow2_less_iff)
  from 1 2 show ?thesis by simp
qed

lemma ilog2_ge: "pow2 j \<le> q \<Longrightarrow> j \<le> ilog 2 q"
proof -
  assume a: "pow2 j \<le> q"
  then have qpos: "0 < q" using pow2_pos [of j] by linarith
  from ilog2_bounds(2) [OF qpos] a have "pow2 j < pow2 (ilog 2 q + 1)" by linarith
  then show ?thesis by (simp add: pow2_less_iff)
qed

lemma ilog2_less: "0 < q \<Longrightarrow> q < pow2 j \<Longrightarrow> ilog 2 q < j"
proof -
  assume qpos: "0 < q" and a: "q < pow2 j"
  from ilog2_bounds(1) [OF qpos] a have "pow2 (ilog 2 q) < pow2 j" by linarith
  then show ?thesis by (simp add: pow2_less_iff)
qed

subsection \<open>Rounding does not cross a power of two\<close>

lemma round_half_even_ge:
  assumes "of_int n \<le> q"
  shows "n \<le> round_half_even q"
proof -
  from assms have "n \<le> \<lfloor>q\<rfloor>" by (simp add: le_floor_iff)
  with round_half_even_ge_floor [of q] show ?thesis by linarith
qed

lemma round_half_even_le:
  assumes "q \<le> of_int n"
  shows "round_half_even q \<le> n"
proof (cases "q = of_int \<lfloor>q\<rfloor>")
  case True
  from assms have "\<lfloor>q\<rfloor> \<le> n" by linarith
  moreover have "round_half_even q = \<lfloor>q\<rfloor>"
    by (subst True) (simp only: round_half_even_of_int)
  ultimately show ?thesis by simp
next
  case False
  have "of_int \<lfloor>q\<rfloor> < q"
    by (metis False of_int_floor_le order_less_le)
  with assms have "\<lfloor>q\<rfloor> < n" by linarith
  with round_half_even_le_floor [of q] show ?thesis by simp
qed

text \<open>Rounding to the multiples of \<open>2 ^ e\<close> does not cross a multiple of \<open>2 ^ e\<close>.\<close>

lemma grid_round_ge:
  assumes "pow2 t \<le> q" and "e \<le> t"
  shows "pow2 t \<le> of_int (round_half_even (q / pow2 e)) * pow2 e"
proof -
  have p: "pow2 t = of_int (2 ^ nat (t - e)) * pow2 e"
    using assms(2) pow2_add [of "t - e" e] by (simp add: pow2_int)
  have "of_int (2 ^ nat (t - e)) \<le> q / pow2 e"
    using assms(1) by (simp add: p pos_le_divide_eq)
  then have "2 ^ nat (t - e) \<le> round_half_even (q / pow2 e)"
    by (rule round_half_even_ge)
  then have "(of_int (2 ^ nat (t - e)) :: rat) \<le> of_int (round_half_even (q / pow2 e))"
    by (simp only: of_int_le_iff)
  then show ?thesis
    by (simp only: p) (simp add: mult_right_mono less_imp_le)
qed

lemma grid_round_le:
  assumes "q \<le> pow2 t" and "e \<le> t"
  shows "of_int (round_half_even (q / pow2 e)) * pow2 e \<le> pow2 t"
proof -
  have p: "pow2 t = of_int (2 ^ nat (t - e)) * pow2 e"
    using assms(2) pow2_add [of "t - e" e] by (simp add: pow2_int)
  have "q / pow2 e \<le> of_int (2 ^ nat (t - e))"
    using assms(1) by (simp add: p pos_divide_le_eq)
  then have "round_half_even (q / pow2 e) \<le> 2 ^ nat (t - e)"
    by (rule round_half_even_le)
  then have "(of_int (round_half_even (q / pow2 e)) :: rat) \<le> of_int (2 ^ nat (t - e))"
    by (simp only: of_int_le_iff)
  then show ?thesis
    by (simp only: p) (simp add: mult_right_mono less_imp_le)
qed

lemma round_mag_ge:
  assumes "pow2 j \<le> q" and "- 1074 \<le> j"
  shows "pow2 j \<le> round_mag q"
proof -
  have qpos: "0 < q" using assms(1) pow2_pos [of j] by linarith
  have ji: "j \<le> ilog 2 q" by (rule ilog2_ge [OF assms(1)])
  define e where "e = max (ilog 2 q) (- 1022) - 52"
  have r: "round_mag q = of_int (round_half_even (q / pow2 e)) * pow2 e"
    by (simp add: round_mag_def e_def Let_def)
  show ?thesis
  proof (cases "- 1022 \<le> ilog 2 q")
    case True
    then have "e \<le> ilog 2 q" by (simp add: e_def)
    from grid_round_ge [OF ilog2_bounds(1) [OF qpos] this]
    have "pow2 (ilog 2 q) \<le> round_mag q" by (simp add: r)
    with pow2_mono [OF ji] show ?thesis by linarith
  next
    case False
    then have "e \<le> j" using assms(2) by (simp add: e_def)
    from grid_round_ge [OF assms(1) this] show ?thesis by (simp add: r)
  qed
qed

lemma round_mag_le:
  assumes "0 < q" and "q \<le> pow2 j" and "- 1074 \<le> j"
  shows "round_mag q \<le> pow2 j"
proof -
  define e where "e = max (ilog 2 q) (- 1022) - 52"
  have r: "round_mag q = of_int (round_half_even (q / pow2 e)) * pow2 e"
    by (simp add: round_mag_def e_def Let_def)
  have "pow2 (ilog 2 q) \<le> pow2 j"
    using ilog2_bounds(1) [OF assms(1)] assms(2) by linarith
  then have "ilog 2 q \<le> j" by (simp add: pow2_le_iff)
  then have "e \<le> j" using assms(3) by (simp add: e_def)
  from grid_round_le [OF assms(2) this] show ?thesis by (simp add: r)
qed

text \<open>Just above a power of two, rounding falls back onto it.\<close>

lemma round_mag_stall:
  assumes "0 < q" and "q \<le> pow2 j + pow2 (j - 53)" and "- 1022 \<le> j"
  shows "round_mag q \<le> pow2 j"
proof (cases "q \<le> pow2 j")
  case True
  with assms show ?thesis by (simp add: round_mag_le)
next
  case False
  then have lo: "pow2 j < q" by simp
  have "pow2 (j - 53) < pow2 j" by (simp add: pow2_less_iff)
  then have "q < pow2 j + pow2 j" using assms(2) by linarith
  also have "\<dots> = pow2 (j + 1)" using pow2_add [of j 1] by (simp add: pow2_def)
  finally have hi: "q < pow2 (j + 1)" .
  have il: "ilog 2 q = j" using lo hi by (intro ilog2_unique) simp_all
  define e where "e = j - 52"
  have r: "round_mag q = of_int (round_half_even (q / pow2 e)) * pow2 e"
    using assms(3) by (simp add: round_mag_def e_def il Let_def)
  have pj: "pow2 j = 2 ^ 52 * pow2 e"
    using pow2_add [of 52 e] by (simp add: e_def pow2_def)
  have ph: "pow2 (j - 53) = (1 / 2) * pow2 e"
    using pow2_add [of "- 1" e] by (simp add: e_def pow2_def)
  define x where "x = q / pow2 e"
  have x1: "2 ^ 52 < x" using lo by (simp add: x_def pj pos_less_divide_eq)
  have x2: "x \<le> 2 ^ 52 + 1 / 2"
    using assms(2) by (simp add: x_def pj ph pos_divide_le_eq distrib_right)
  have fl: "\<lfloor>x\<rfloor> = 2 ^ 52"
    using x1 x2 by (intro floor_unique) simp_all
  have "round_half_even x = 2 ^ 52"
    using x2 by (auto simp: round_half_even_def fl Let_def)
  then show ?thesis by (simp add: r x_def [symmetric] pj)
qed

subsection \<open>Evaluating literals\<close>

lemma floor_rat_numeral [simp]: "\<lfloor>numeral a / numeral b :: rat\<rfloor> = numeral a div numeral b"
  using floor_divide_of_int_eq [of "numeral a" "numeral b", where ?'a = rat] by simp

lemma ceiling_rat_numeral [simp]:
  "\<lceil>numeral a / numeral b :: rat\<rceil> = - ((- numeral a) div numeral b)"
  using ceiling_divide_eq_div [of "numeral a" "numeral b", where ?'a = rat] by simp

lemma floor_rat_one_numeral [simp]: "\<lfloor>1 / numeral b :: rat\<rfloor> = 1 div numeral b"
  using floor_divide_of_int_eq [of 1 "numeral b", where ?'a = rat] by simp

lemma ndigits_0 [simp]: "ndigits b 0 = 0"
  by (subst ndigits.simps) simp

lemma ndigits_1 [simp]: "ndigits 2 1 = 1" "ndigits 10 1 = 1" "ndigits 2 (Suc 0) = 1" "ndigits 10 (Suc 0) = 1"
  by (subst ndigits.simps, simp)+

lemma ndigits_numeral [simp]:
  "ndigits 2 (numeral k) = Suc (ndigits 2 (numeral k div 2))"
  "ndigits 10 (numeral k) = Suc (ndigits 10 (numeral k div 10))"
  by (subst ndigits.simps, simp)+

lemmas float_eval = float_lit_def round_to_double_def round_mag_def ilog_def
  round_half_even_def pow2_def Let_def

lemma float_lit_10: "float_lit 10 = Fin False 10"
  by (simp add: float_eval)

lemma float_lit_255: "float_lit 255 = Fin False 255"
  by (simp add: float_eval)

lemma float_lit_1000: "float_lit 1000 = Fin False 1000"
  by (simp add: float_eval)

lemma float_lit_0_9: "float_lit (9 / 10) = Fin False (8106479329266893 / 9007199254740992)"
  by (simp add: float_eval)

lemma float_lit_1_1: "float_lit (11 / 10) = Fin False (2476979795053773 / 2251799813685248)"
  by (simp add: float_eval)

lemma float_lit_0_1: "float_lit (1 / 10) = Fin False (3602879701896397 / 36028797018963968)"
  by (simp add: float_eval)

lemma float_lit_1em6: "float_lit (1 / 1000000) = Fin False (4722366482869645 / 4722366482869645213696)"
  by (simp add: float_eval)

lemma float_lit_0_5: "float_lit (1 / 2) = Fin False (1 / 2)"
  by (simp add: float_eval)

lemma float_lit_1_5: "float_lit (3 / 2) = Fin False (3 / 2)"
  by (simp add: float_eval)


subsection \<open>The order on floats, \<open>min\<close> and \<open>max\<close>\<close>

lemma fle_NaN_right [simp]: "fle x NaN = False"
  by (cases x) simp_all





lemma fle_not_flt: "fle a b \<Longrightarrow> \<not> flt b a"
  by (cases a; cases b) auto











section \<open>The shape of the validator's result\<close>

lemma check_finite_acc: "check_finite xs acc = acc @ check_finite xs []"
proof (induction xs arbitrary: acc)
  case Nil
  show ?case by simp
next
  case (Cons p xs)
  obtain i x where p: "p = (i, x)" by (cases p)
  show ?case
    unfolding p check_finite.simps Let_def
    by (subst Cons.IH, subst (2) Cons.IH) simp
qed

lemma py_min_nonempty: "v \<noteq> [] \<Longrightarrow> \<exists>m. py_min v = Inr m"
  by (cases v) auto

lemma py_max_nonempty: "v \<noteq> [] \<Longrightarrow> \<exists>m. py_max v = Inr m"
  by (cases v) auto

lemma validate_unfold:
  assumes "calculate_norm v = Inr n" and "py_min v = Inr mn" and "py_max v = Inr mx"
  shows "validate_embedding v =
           Inr (dim_part v @ finite_part v @ norm_part n @ range_part mn mx @ zero_part v = [],
                dim_part v @ finite_part v @ norm_part n @ range_part mn mx @ zero_part v)"
  using assms
  unfolding validate_embedding_def Let_def dim_part_def finite_part_def norm_part_def
    range_part_def zero_part_def
  by (simp add: check_finite_acc [of _ "[dim_issue (length v)]"])

lemma validate_empty: "validate_embedding [] = Inl ValueError"
  using calculate_norm_total [of "[]"] by (auto simp: validate_embedding_def)

lemma validate_nonempty:
  assumes "v \<noteq> []"
  shows "\<exists>n mn mx. calculate_norm v = Inr n \<and> py_min v = Inr mn \<and> py_max v = Inr mx \<and>
           validate_embedding v =
             Inr (dim_part v @ finite_part v @ norm_part n @ range_part mn mx @ zero_part v = [],
                  dim_part v @ finite_part v @ norm_part n @ range_part mn mx @ zero_part v)"
  using calculate_norm_total [of v] py_min_nonempty [OF assms] py_max_nonempty [OF assms]
    validate_unfold [of v]
  by blast

lemma digit_char_inj: "d < 10 \<Longrightarrow> d' < 10 \<Longrightarrow> digit_char d = digit_char d' \<Longrightarrow> d = d'"
proof -
  have enum: "\<And>k::nat. k < 10 \<Longrightarrow> k \<in> {0, 1, 2, 3, 4, 5, 6, 7, 8, 9}" by auto
  assume "d < 10" "d' < 10" "digit_char d = digit_char d'"
  with enum [of d] enum [of d'] show ?thesis
    by (auto simp: digit_char_def)
qed

lemma show_nat_nonempty: "show_nat n \<noteq> []"
  by (subst show_nat.simps) simp

lemma show_nat_inj: "show_nat m = show_nat n \<Longrightarrow> m = n"
proof (induction m arbitrary: n rule: show_nat.induct)
  case (1 m)
  show ?case
  proof (cases "m < 10")
    case m: True
    show ?thesis
    proof (cases "n < 10")
      case True
      with m "1.prems" show ?thesis
        by (simp add: show_nat.simps [of m] show_nat.simps [of n] digit_char_inj)
    next
      case False
      with m "1.prems" show ?thesis
        using show_nat_nonempty [of "n div 10"]
        by (simp add: show_nat.simps [of m] show_nat.simps [of n])
    qed
  next
    case m: False
    show ?thesis
    proof (cases "n < 10")
      case True
      with m "1.prems" show ?thesis
        using show_nat_nonempty [of "m div 10"]
        by (simp add: show_nat.simps [of m] show_nat.simps [of n])
    next
      case False
      with m "1.prems" have eq: "show_nat (m div 10) = show_nat (n div 10)"
        and dg: "digit_char (m mod 10) = digit_char (n mod 10)"
        by (simp_all add: show_nat.simps [of m] show_nat.simps [of n])
      from "1.IH" [OF m eq] have "m div 10 = n div 10" .
      moreover from dg have "m mod 10 = n mod 10"
        by (intro digit_char_inj) simp_all
      ultimately show ?thesis
        by (metis div_mult_mod_eq)
    qed
  qed
qed

lemma nan_issue_eq [simp]: "nan_issue i = nan_issue j \<longleftrightarrow> i = j"
  by (auto simp: nan_issue_def dest: show_nat_inj)

lemma inf_issue_eq [simp]: "inf_issue i = inf_issue j \<longleftrightarrow> i = j"
  by (auto simp: inf_issue_def dest: show_nat_inj)

lemma issue_distinct [simp]:
  "nan_issue i \<noteq> inf_issue j" "inf_issue j \<noteq> nan_issue i"
  "nan_issue i \<noteq> dim_issue k" "dim_issue k \<noteq> nan_issue i"
  "inf_issue i \<noteq> dim_issue k" "dim_issue k \<noteq> inf_issue i"
  "nan_issue i \<noteq> norm_issue x" "norm_issue x \<noteq> nan_issue i"
  "inf_issue i \<noteq> norm_issue x" "norm_issue x \<noteq> inf_issue i"
  "nan_issue i \<noteq> range_issue x y" "range_issue x y \<noteq> nan_issue i"
  "inf_issue i \<noteq> range_issue x y" "range_issue x y \<noteq> inf_issue i"
  "nan_issue i \<noteq> zero_issue" "zero_issue \<noteq> nan_issue i"
  "inf_issue i \<noteq> zero_issue" "zero_issue \<noteq> inf_issue i"
  "norm_issue x \<noteq> dim_issue k" "dim_issue k \<noteq> norm_issue x"
  "norm_issue x \<noteq> range_issue y z" "range_issue y z \<noteq> norm_issue x"
  "norm_issue x \<noteq> zero_issue" "zero_issue \<noteq> norm_issue x"
  "range_issue x y \<noteq> dim_issue k" "dim_issue k \<noteq> range_issue x y"
  "range_issue x y \<noteq> zero_issue" "zero_issue \<noteq> range_issue x y"
  "zero_issue \<noteq> dim_issue k" "dim_issue k \<noteq> zero_issue"
  by (simp_all add: nan_issue_def inf_issue_def dim_issue_def norm_issue_def range_issue_def
      zero_issue_def)

lemma count_finite_nan:
  "count_list (check_finite (enumerate k xs) []) (nan_issue i) =
     (if k \<le> i \<and> i < k + length xs \<and> isnan (xs ! (i - k)) then 1 else 0)"
proof (induction xs arbitrary: k)
  case Nil
  show ?case by simp
next
  case (Cons x xs)
  show ?case
    by (cases x)
      (auto simp: Let_def Cons.IH check_finite_acc [of _ "[_]"] nth_Cons' Suc_diff_le)
qed

lemma count_finite_inf:
  "count_list (check_finite (enumerate k xs) []) (inf_issue i) =
     (if k \<le> i \<and> i < k + length xs \<and> isinf (xs ! (i - k)) then 1 else 0)"
proof (induction xs arbitrary: k)
  case Nil
  show ?case by simp
next
  case (Cons x xs)
  show ?case
    by (cases x)
      (auto simp: Let_def Cons.IH check_finite_acc [of _ "[_]"] nth_Cons' Suc_diff_le)
qed

lemma finite_part_labels:
  "set (check_finite (enumerate k xs) []) \<subseteq> range nan_issue \<union> range inf_issue"
proof (induction xs arbitrary: k)
  case Nil
  show ?case by simp
next
  case (Cons x xs)
  show ?case
    using Cons.IH [of "Suc k"]
    by (cases x) (auto simp: Let_def check_finite_acc [of _ "[_]"])
qed

lemma finite_part_other:
  assumes "\<And>i. s \<noteq> nan_issue i" and "\<And>i. s \<noteq> inf_issue i"
  shows "s \<notin> set (finite_part v)"
  using finite_part_labels [of 0 v] assms unfolding finite_part_def by blast

lemma count_list_zero: "s \<notin> set xs \<Longrightarrow> count_list xs s = 0"
  by (induction xs) auto

lemma fadd_NaN_right [simp]: "fadd x NaN = NaN"
  by (cases x) simp_all

lemma fmul_NaN_right [simp]: "fmul x NaN = NaN"
  by (cases x) simp_all

lemma flt_NaN_right [simp]: "flt x NaN = False"
  by (cases x) simp_all

lemma foldl_fadd_NaN [simp]: "foldl fadd NaN xs = NaN"
  by (induction xs) simp_all

lemma foldl_fadd_has_NaN: "NaN \<in> set xs \<Longrightarrow> foldl fadd a xs = NaN"
  by (induction xs arbitrary: a) auto

lemma isnan_iff [simp]: "isnan x \<longleftrightarrow> x = NaN"
  by (cases x) simp_all

lemma calculate_norm_NaN: "NaN \<in> set v \<Longrightarrow> calculate_norm v = Inr NaN"
proof -
  assume "NaN \<in> set v"
  then have "NaN \<in> set (map (\<lambda>x. fmul x x) v)" by force
  then show ?thesis
    by (simp add: calculate_norm_def py_sum_def foldl_fadd_has_NaN)
qed

lemma other_parts_no_issue:
  assumes "\<And>i. s \<noteq> nan_issue i" "\<And>i. s \<noteq> inf_issue i" "\<And>k. s \<noteq> dim_issue k"
  shows "count_list (dim_part v) s = 0" "count_list (finite_part v) s = 0"
  using assms finite_part_other [of s v]
  by (auto simp: dim_part_def intro!: count_list_zero)

lemma check_finite_clean:
  "\<forall>x\<in>set xs. \<not> isnan x \<and> \<not> isinf x \<Longrightarrow> check_finite (enumerate k xs) acc = acc"
  by (induction xs arbitrary: k) (simp_all add: Let_def)

lemma foldl_fadd_zeros:
  "foldl fadd (Fin False 0) (replicate n (Fin False 0)) = Fin False 0"
  by (induction n) (simp_all add: sval_def)

lemma calculate_norm_zeros: "calculate_norm (replicate n (Fin False 0)) = Inr (Fin False 0)"
  by (simp add: calculate_norm_def py_sum_def round_to_double_def foldl_fadd_zeros)

lemma foldl_const:
  "f x x = x \<Longrightarrow> foldl f x (replicate n x) = x"
  by (induction n) simp_all


lemma py_min_zeros: "0 < n \<Longrightarrow> py_min (replicate n (Fin False 0)) = Inr (Fin False 0)"
  by (cases n) (simp_all add: foldl_const)

lemma py_max_zeros: "0 < n \<Longrightarrow> py_max (replicate n (Fin False 0)) = Inr (Fin False 0)"
  by (cases n) (simp_all add: foldl_const fgt_def)

lemma isqrt_0 [simp]: "isqrt 0 = 0"
  by (subst isqrt.simps) simp

lemma isqrt_1 [simp]: "isqrt 1 = 1" "isqrt (Suc 0) = Suc 0"
  by (subst isqrt.simps, simp)+

lemma isqrt_unfold:
  "0 < n \<Longrightarrow>
   isqrt n = (let r = 2 * isqrt (n div 4) in if (r + 1) * (r + 1) \<le> n then r + 1 else r)"
proof (cases "n < 2")
  case True
  assume "0 < n"
  with True have "n = 1" by simp
  then show ?thesis by simp
next
  case False
  then show ?thesis by (subst isqrt.simps) simp
qed

lemma isqrt_numeral [simp]:
  "isqrt (numeral k) =
     (let r = 2 * isqrt (numeral k div 4) in if (r + 1) * (r + 1) \<le> numeral k then r + 1 else r)"
  by (rule isqrt_unfold) simp

lemma show_nat_numeral [simp]:
  "show_nat (numeral k) =
     (if numeral k < (10::nat) then [digit_char (numeral k)]
      else show_nat (numeral k div 10) @ [digit_char (numeral k mod 10)])"
  by (subst show_nat.simps) simp

lemma show_nat_0 [simp]: "show_nat 0 = ''0''"
  by (subst show_nat.simps) (simp add: digit_char_def)

lemma show_nat_1 [simp]: "show_nat 1 = ''1''" "show_nat (Suc 0) = ''1''"
  by (subst show_nat.simps, simp add: digit_char_def)+

lemmas sqrt_eval = sqrt_to_double_def ilog_def pow2_def Let_def

lemmas fmt_eval = fmt6_mag_def digits6_def ilog_def pow10_def round_half_even_def
  strip_zeros_def digit_char_def Let_def

lemma calculate_norm_single:
  "calculate_norm [Fin False (1 / 2)] = Inr (Fin False (1 / 2))"
  "calculate_norm [Fin False (3 / 2)] = Inr (Fin False (3 / 2))"
  "calculate_norm [Fin False 1] = Inr (Fin False 1)"
  "calculate_norm [Fin False (8106479329266893 / 9007199254740992)] =
     Inr (Fin False (8106479329266893 / 9007199254740992))"
  by (simp_all add: calculate_norm_def py_sum_def sval_def float_eval sqrt_eval)

section \<open>The generator computes the reference\<close>

lemma round_mag_of_int:
  assumes "0 < i" and "i < 2 ^ 53"
  shows "round_mag (of_int i) = of_int i"
proof -
  let ?q = "of_int i :: rat"
  have "pow2 0 \<le> ?q" using assms(1) by simp
  then have lo: "0 \<le> ilog 2 ?q" by (rule ilog2_ge)
  have "?q < of_int (2 ^ 53)" using assms(2) by (simp only: of_int_less_iff)
  then have "?q < pow2 53" by (simp add: pow2_def)
  then have hi: "ilog 2 ?q < 53" using assms(1) by (intro ilog2_less) simp_all
  define k where "k = nat (52 - ilog 2 ?q)"
  have e: "max (ilog 2 ?q) (- 1022) - 52 = - int k" using lo hi by (simp add: k_def)
  have p: "pow2 (- int k) = 1 / 2 ^ k" by (simp add: pow2_def)
  have "?q / pow2 (- int k) = of_int (i * 2 ^ k)" by (simp add: p)
  then have "round_half_even (?q / pow2 (- int k)) = i * 2 ^ k"
    by (simp only: round_half_even_of_int)
  then show ?thesis by (simp add: round_mag_def e p)
qed

lemma round_to_double_of_int:
  assumes "0 \<le> i" and "i < 2 ^ 53"
  shows "round_to_double s (of_int i) = Fin s (of_int i)"
proof (cases "i = 0")
  case True
  then show ?thesis by (simp add: round_to_double_def)
next
  case False
  with assms have pos: "0 < i" by simp
  have "(of_int i :: rat) < of_int (2 ^ 53)" using assms(2) by (simp only: of_int_less_iff)
  also have "\<dots> < pow2 1024" by (simp add: pow2_def)
  finally have "\<not> pow2 1024 \<le> (of_int i :: rat)" by simp
  then show ?thesis
    using False by (simp add: round_to_double_def round_mag_of_int [OF pos assms(2)])
qed

lemma int_to_float_small:
  assumes "0 \<le> i" and "i < 2 ^ 53"
  shows "int_to_float i = Inr (Fin False (of_int i))"
  using assms round_to_double_of_int [OF assms, of False]
  by (simp add: int_to_float_def)

lemma int_truediv_small:
  assumes "0 \<le> i" and "i < 2 ^ 53" and "0 < b"
  shows "int_truediv i (Fin False b) = Inr (quot (of_small_int i) (Fin False b))"
  using assms by (simp add: int_truediv_def int_to_float_small quot_def of_small_int_def)

lemma char_term_step:
  "int_truediv (int c mod 255) (float_lit 255) =
     Inr (quot (of_small_int (int c mod 255)) (float_lit 255))"
  unfolding float_lit_255 by (rule int_truediv_small) simp_all

lemma hash_term_step:
  "int_truediv ((int j + h) mod 100) (float_lit 1000) =
     Inr (quot (of_small_int ((int j + h) mod 100)) (float_lit 1000))"
  unfolding float_lit_1000 by (rule int_truediv_small) simp_all

lemma py_index_nat: "k < length xs \<Longrightarrow> py_index xs (int k) = Inr k"
  by (simp add: py_index_def)

lemma add_chars_spec:
  assumes "0 < d" and "length emb = d"
  shows "add_chars (int d) ps emb =
           Inr (map (\<lambda>j. foldl fadd (emb ! j)
                          (map (\<lambda>p. spec_char_term (snd p)) (filter (\<lambda>p. fst p mod d = j) ps)))
                  [0..<d])"
  using assms(2)
proof (induction ps arbitrary: emb)
  case Nil
  then show ?case using map_nth [of emb] by simp
next
  case (Cons p ps)
  obtain i c where p: "p = (i, c)" by (cases p)
  let ?k = "i mod d"
  let ?emb = "emb[?k := fadd (emb ! ?k) (spec_char_term c)]"
  have k: "?k < length emb" using assms(1) Cons.prems by simp
  have idx: "int i mod int d = int ?k" by (simp add: zmod_int)
  have step: "add_chars (int d) (p # ps) emb = add_chars (int d) ps ?emb"
    using assms(1) by (simp add: p idx py_index_nat [OF k] char_term_step spec_char_term_def)
  have len: "length ?emb = d" using Cons.prems by simp
  show ?case
    unfolding step Cons.IH [OF len]
    using Cons.prems by (auto simp: p nth_list_update)
qed

lemma add_hash_spec:
  assumes "distinct js" and "\<forall>j\<in>set js. j < length emb"
  shows "add_hash h js emb =
           Inr (map (\<lambda>j. if j \<in> set js
                          then fadd (emb ! j) (quot (of_small_int ((int j + h) mod 100)) (float_lit 1000))
                          else emb ! j)
                  [0..<length emb])"
  using assms
proof (induction js arbitrary: emb)
  case Nil
  then show ?case by (simp add: map_nth)
next
  case (Cons i js)
  let ?t = "quot (of_small_int ((int i + h) mod 100)) (float_lit 1000)"
  let ?emb = "emb[i := fadd (emb ! i) ?t]"
  have i: "i < length emb" using Cons.prems(2) by simp
  have step: "add_hash h (i # js) emb = add_hash h js ?emb"
    by (simp add: py_index_nat [OF i] hash_term_step)
  have d: "distinct js" and b: "\<forall>j\<in>set js. j < length ?emb" and ni: "i \<notin> set js"
    using Cons.prems by simp_all
  show ?case
    unfolding step Cons.IH [OF d b]
    using ni i by (auto simp: nth_list_update)
qed

lemma list_repeat_allocatable:
  "allocatable capacity n \<Longrightarrow> list_repeat capacity x n = Inr (replicate (nat n) x)"
  by (simp add: list_repeat_def allocatable_def)

lemma list_repeat_overflow:
  "n < - (2 ^ 63) \<or> 2 ^ 63 \<le> n \<Longrightarrow> list_repeat capacity x n = Inl OverflowError"
  by (simp add: list_repeat_def)

lemma list_repeat_memory:
  "- (2 ^ 63) \<le> n \<Longrightarrow> n < 2 ^ 63 \<Longrightarrow> 2 ^ 60 \<le> n \<or> int capacity < n \<Longrightarrow>
   list_repeat capacity x n = Inl MemoryError"
  by (simp add: list_repeat_def)

lemma raw_embedding_spec:
  assumes "1 \<le> dimensions" and al: "allocatable capacity dimensions"
  shows "raw_embedding capacity text dimensions = Inr (spec_raw_vector text (nat dimensions))"
proof -
  define d where "d = nat dimensions"
  have dpos: "0 < d" and dd: "dimensions = int d" using assms by (simp_all add: d_def)
  let ?e1 = "map (\<lambda>j. foldl fadd (Fin False 0)
                          (map (\<lambda>p. spec_char_term (snd p))
                             (filter (\<lambda>p. fst p mod d = j) (enumerate 0 text))))
                  [0..<d]"
  have c: "add_chars (int d) (enumerate 0 text) (replicate d (Fin False 0)) = Inr ?e1"
    by (subst add_chars_spec [OF dpos]) simp_all
  have h: "add_hash (sum_list (map int text)) [0..<d] ?e1 = Inr (spec_raw_vector text d)"
    by (subst add_hash_spec) (simp_all add: spec_raw_vector_def spec_hash_term_def)
  have "list_repeat capacity (Fin False 0) (int d) = Inr (replicate d (Fin False 0))"
    using list_repeat_allocatable [OF al] by (simp add: dd)
  then show ?thesis
    unfolding raw_embedding_def Let_def dd
    by (simp add: c h)
qed

subsection \<open>Bounds on the terms and on the vector\<close>

lemma pow2_not_le_zero [simp]: "\<not> pow2 e \<le> 0"
  using pow2_pos [of e] by (simp only: not_le)

lemma at_least_mono: "at_least b x \<Longrightarrow> c \<le> b \<Longrightarrow> at_least c x"
  by (cases x) auto

lemma at_most_at_least: "at_most b x \<Longrightarrow> at_least 0 x"
  by (cases x) auto

lemma round_at_least:
  assumes "pow2 j \<le> q" and "- 1074 \<le> j"
  shows "at_least (pow2 j) (round_to_double False q)"
proof -
  have "0 < q" using assms(1) pow2_pos [of j] by linarith
  then show ?thesis
    using round_mag_ge [OF assms] by (simp add: round_to_double_def Let_def)
qed

lemma round_nonneg: "0 \<le> q \<Longrightarrow> at_least 0 (round_to_double False q)"
  using round_mag_nonneg [of q] by (simp add: round_to_double_def Let_def)

lemma round_at_most:
  assumes "0 \<le> q" and "q \<le> pow2 j + pow2 (j - 53)" and "- 1022 \<le> j" and "j \<le> 1023"
  shows "at_most (pow2 j) (round_to_double False q)"
proof (cases "q = 0")
  case True
  then show ?thesis by (simp add: round_to_double_def less_imp_le)
next
  case False
  with assms(1) have qpos: "0 < q" by simp
  have le: "round_mag q \<le> pow2 j" by (rule round_mag_stall [OF qpos assms(2,3)])
  have "pow2 j < pow2 1024" using assms(4) by (simp add: pow2_less_iff)
  with le have "\<not> pow2 1024 \<le> round_mag q" by simp
  with le round_mag_nonneg [OF assms(1)] False show ?thesis
    by (simp add: round_to_double_def Let_def)
qed

lemma fadd_at_least_right:
  assumes "at_least 0 x" and "at_least (pow2 j) y" and "- 1074 \<le> j"
  shows "at_least (pow2 j) (fadd x y)"
proof (cases x)
  case NaN
  with assms show ?thesis by simp
next
  case (Inf s)
  with assms show ?thesis by (cases y) auto
next
  case (Fin s a)
  note x = this
  show ?thesis
  proof (cases y)
    case NaN
    with assms show ?thesis by simp
  next
    case (Inf t)
    with assms x show ?thesis by simp
  next
    case (Fin t b)
    with assms x have ab: "0 \<le> a" "pow2 j \<le> b" "\<not> s" "\<not> t" by simp_all
    then have "pow2 j \<le> a + b" by simp
    moreover from this have "0 < a + b" using pow2_pos [of j] by linarith
    ultimately show ?thesis
      using round_at_least [of j "a + b"] assms(3) ab x Fin
      by (simp add: sval_def Let_def)
  qed
qed

lemma fadd_at_least_left:
  assumes "at_least (pow2 j) x" and "at_least 0 y" and "- 1074 \<le> j"
  shows "at_least (pow2 j) (fadd x y)"
proof (cases x)
  case NaN
  with assms show ?thesis by simp
next
  case (Inf s)
  with assms show ?thesis by (cases y) auto
next
  case (Fin s a)
  note x = this
  show ?thesis
  proof (cases y)
    case NaN
    with assms show ?thesis by simp
  next
    case (Inf t)
    with assms x show ?thesis by simp
  next
    case (Fin t b)
    with assms x have ab: "pow2 j \<le> a" "0 \<le> b" "\<not> s" "\<not> t" by simp_all
    then have "pow2 j \<le> a + b" by simp
    moreover from this have "0 < a + b" using pow2_pos [of j] by linarith
    ultimately show ?thesis
      using round_at_least [of j "a + b"] assms(3) ab x Fin
      by (simp add: sval_def Let_def)
  qed
qed

lemma fadd_nonneg: "at_least 0 x \<Longrightarrow> at_least 0 y \<Longrightarrow> at_least 0 (fadd x y)"
  by (cases x; cases y) (auto simp: sval_def Let_def intro!: round_nonneg)

lemma fmul_nonneg: "at_least 0 x \<Longrightarrow> at_least 0 y \<Longrightarrow> y \<noteq> Inf False \<Longrightarrow> x \<noteq> Inf False \<Longrightarrow>
    at_least 0 (fmul x y)"
  by (cases x; cases y) (auto intro!: round_nonneg)

lemma fmul_at_least:
  assumes "at_least (pow2 i) x" and "at_least (pow2 j) y" and "- 1074 \<le> i + j"
  shows "at_least (pow2 (i + j)) (fmul x y)"
proof -
  have pos: "0 < pow2 i" "0 < pow2 j" by simp_all
  show ?thesis
  proof (cases x)
    case NaN
    with assms show ?thesis by simp
  next
    case (Inf s)
    with assms pos show ?thesis by (cases y) auto
  next
    case (Fin s a)
    note x = this
    show ?thesis
    proof (cases y)
      case NaN
      with assms show ?thesis by simp
    next
      case (Inf t)
      with assms x pos show ?thesis by auto
    next
      case (Fin t b)
      with assms x have ab: "pow2 i \<le> a" "pow2 j \<le> b" "\<not> s" "\<not> t" by simp_all
      have a0: "0 \<le> a" using ab(1) pos(1) by linarith
      have "pow2 i * pow2 j \<le> a * b"
        by (rule mult_mono [OF ab(1) ab(2) a0]) (simp add: less_imp_le)
      then have "pow2 (i + j) \<le> a * b" by (simp add: pow2_add)
      from round_at_least [OF this assms(3)] ab x Fin show ?thesis by simp
    qed
  qed
qed

lemma foldl_fadd_nonneg:
  "at_least 0 a \<Longrightarrow> \<forall>x\<in>set xs. at_least 0 x \<Longrightarrow> at_least 0 (foldl fadd a xs)"
  by (induction xs arbitrary: a) (simp_all add: fadd_nonneg)

lemma foldl_fadd_at_least_init:
  "at_least (pow2 j) a \<Longrightarrow> \<forall>x\<in>set xs. at_least 0 x \<Longrightarrow> - 1074 \<le> j \<Longrightarrow>
   at_least (pow2 j) (foldl fadd a xs)"
  by (induction xs arbitrary: a) (simp_all add: fadd_at_least_left)

lemma foldl_fadd_at_least_mem:
  "at_least 0 a \<Longrightarrow> \<forall>x\<in>set xs. at_least 0 x \<Longrightarrow> y \<in> set xs \<Longrightarrow> at_least (pow2 j) y \<Longrightarrow>
   - 1074 \<le> j \<Longrightarrow> at_least (pow2 j) (foldl fadd a xs)"
proof (induction xs arbitrary: a)
  case Nil
  then show ?case by simp
next
  case (Cons x xs)
  show ?case
  proof (cases "y = x")
    case True
    with Cons.prems have "at_least (pow2 j) (fadd a x)"
      by (simp add: fadd_at_least_right)
    with Cons.prems show ?thesis
      by (simp add: foldl_fadd_at_least_init)
  next
    case False
    with Cons.prems have "y \<in> set xs" by simp
    moreover have "at_least 0 (fadd a x)" using Cons.prems by (simp add: fadd_nonneg)
    ultimately show ?thesis using Cons.IH [of "fadd a x"] Cons.prems by simp
  qed
qed

lemma feq_refl: "x \<noteq> NaN \<Longrightarrow> feq x x"
  by (cases x) simp_all

lemma py_list_eq_refl: "NaN \<notin> set v \<Longrightarrow> py_list_eq v v"
  by (simp add: py_list_eq_def list_all2_same feq_refl) (metis feq_refl)

lemma at_most_mono: "at_most b x \<Longrightarrow> b \<le> c \<Longrightarrow> at_most c x"
  by (cases x) auto

lemma at_most_not_NaN: "at_most b x \<Longrightarrow> x \<noteq> NaN"
  by (cases x) auto

lemma quot_small:
  assumes "0 \<le> i" and "i < 2 ^ 53" and "0 < b"
  shows "quot (of_small_int i) (Fin False b) = round_to_double False (of_int i / b)"
  using assms by (simp add: quot_def of_small_int_def int_to_float_small)

lemma le_pow2_stall: "q \<le> pow2 j \<Longrightarrow> q \<le> pow2 j + pow2 (j - 53)"
  using pow2_pos [of "j - 53"] by linarith

lemma pow2_neg_nat: "pow2 (- int k) = 1 / 2 ^ k"
  by (cases "k = 0") (simp_all add: pow2_def)

lemma quot_small_at_most:
  assumes "0 \<le> i" and "i < 2 ^ 53" and "of_int i \<le> b" and b: "0 < b"
  shows "at_most 1 (quot (of_small_int i) (Fin False b))"
proof -
  have "of_int i / b \<le> pow2 0" using assms(3) b by simp
  then have "of_int i / b \<le> pow2 0 + pow2 (0 - 53)" by (rule le_pow2_stall)
  moreover have "0 \<le> of_int i / b" using assms(1) b by simp
  ultimately have "at_most (pow2 0) (round_to_double False (of_int i / b))"
    by (intro round_at_most) simp_all
  then show ?thesis by (simp add: quot_small [OF assms(1,2) b])
qed

lemma quot_small_at_least:
  assumes "0 < i" and "i < 2 ^ 53" and "0 < b" and "b \<le> 2 ^ k" and "k \<le> 1074"
  shows "at_least (pow2 (- int k)) (quot (of_small_int i) (Fin False b))"
proof -
  have "1 \<le> (of_int i :: rat)" using assms(1) by simp
  then have "1 / 2 ^ k \<le> of_int i / b"
    using assms(3,4) by (intro frac_le) simp_all
  then have "pow2 (- int k) \<le> of_int i / b" by (simp only: pow2_neg_nat)
  from round_at_least [OF this] assms show ?thesis
    by (simp add: quot_small)
qed

lemma quot_small_zero: "0 < b \<Longrightarrow> quot (of_small_int 0) (Fin False b) = Fin False 0"
  by (simp add: quot_def of_small_int_def int_to_float_small round_to_double_def)

lemma tenth_bounds: "at_least (pow2 (- 4)) (float_lit (1 / 10))" "at_most 1 (float_lit (1 / 10))"
  by (simp_all add: float_lit_0_1 pow2_def)

lemma fmul_at_most_one:
  assumes "at_most 1 x" and "at_most 1 y"
  shows "at_most 1 (fmul x y)"
proof -
  from assms obtain a b where x: "x = Fin False a" and y: "y = Fin False b"
    and ab: "0 \<le> a" "a \<le> 1" "0 \<le> b" "b \<le> 1"
    by (cases x; cases y) auto
  have "a * b \<le> 1 * 1" using ab by (intro mult_mono) simp_all
  then have "a * b \<le> pow2 0" by simp
  then have "a * b \<le> pow2 0 + pow2 (0 - 53)" by (rule le_pow2_stall)
  moreover have "0 \<le> a * b" using ab by simp
  ultimately have "at_most (pow2 0) (round_to_double False (a * b))"
    by (intro round_at_most) simp_all
  then show ?thesis by (simp add: x y)
qed

lemma char_term_at_most: "at_most 1 (spec_char_term c)"
  unfolding spec_char_term_def float_lit_255
  by (intro fmul_at_most_one quot_small_at_most tenth_bounds) simp_all

lemma char_term_zero: "c mod 255 = 0 \<Longrightarrow> spec_char_term c = Fin False 0"
proof -
  assume "c mod 255 = 0"
  then have "int c mod 255 = 0" by presburger
  then show ?thesis
    by (simp add: spec_char_term_def float_lit_255 float_lit_0_1 quot_small_zero
        round_to_double_def)
qed

lemma char_term_at_least:
  assumes "c mod 255 \<noteq> 0"
  shows "at_least (pow2 (- 12)) (spec_char_term c)"
proof -
  from assms have pos: "0 < int c mod 255" by presburger
  have "at_least (pow2 (- int 8)) (quot (of_small_int (int c mod 255)) (Fin False 255))"
    by (rule quot_small_at_least [OF pos]) simp_all
  from fmul_at_least [OF this tenth_bounds(1)] show ?thesis
    by (simp add: spec_char_term_def float_lit_255)
qed

lemma hash_term_at_most: "at_most 1 (spec_hash_term text j)"
  unfolding spec_hash_term_def float_lit_1000
  by (intro quot_small_at_most) simp_all

lemma hash_term_zero:
  "(int j + sum_list (map int text)) mod 100 = 0 \<Longrightarrow> spec_hash_term text j = Fin False 0"
  by (simp add: spec_hash_term_def float_lit_1000 quot_small_zero)

lemma hash_term_at_least:
  assumes "(int j + sum_list (map int text)) mod 100 \<noteq> 0"
  shows "at_least (pow2 (- 10)) (spec_hash_term text j)"
proof -
  from assms have pos: "0 < (int j + sum_list (map int text)) mod 100"
    by (smt (verit) pos_mod_sign)
  have "at_least (pow2 (- int 10))
      (quot (of_small_int ((int j + sum_list (map int text)) mod 100)) (Fin False 1000))"
    by (rule quot_small_at_least [OF pos]) simp_all
  then show ?thesis by (simp add: spec_hash_term_def float_lit_1000)
qed

lemma fadd_at_most:
  assumes "at_most (pow2 60) x" and "at_most 1 t"
  shows "at_most (pow2 60) (fadd x t)"
proof -
  from assms obtain a b where x: "x = Fin False a" and t: "t = Fin False b"
    and ab: "0 \<le> a" "a \<le> pow2 60" "0 \<le> b" "b \<le> 1"
    by (cases x; cases t) auto
  have "b \<le> pow2 (60 - 53)" using ab(4) by (simp add: pow2_def)
  with ab have "a + b \<le> pow2 60 + pow2 (60 - 53)" by linarith
  moreover have "0 \<le> a + b" using ab by simp
  ultimately have "at_most (pow2 60) (round_to_double False (a + b))"
    by (intro round_at_most) simp_all
  then show ?thesis
    using ab by (simp add: x t sval_def Let_def less_imp_le)
qed

lemma foldl_fadd_at_most:
  "at_most (pow2 60) a \<Longrightarrow> \<forall>t\<in>set ts. at_most 1 t \<Longrightarrow> at_most (pow2 60) (foldl fadd a ts)"
  by (induction ts arbitrary: a) (simp_all add: fadd_at_most)

lemma isqrt_pos: "0 < n \<Longrightarrow> 0 < isqrt n"
proof (induction n rule: less_induct)
  case (less n)
  show ?case
  proof (cases "n div 4 = 0")
    case True
    then show ?thesis using less.prems by (simp add: isqrt_unfold Let_def)
  next
    case False
    then have "0 < n div 4" "n div 4 < n" using less.prems by simp_all
    from less.IH [OF this(2) this(1)] show ?thesis
      using less.prems by (simp add: isqrt_unfold Let_def)
  qed
qed

lemma sqrt_to_double_pos:
  assumes "pow2 (- 2044) \<le> q"
  shows "sqrt_to_double q = Inf False \<or> (\<exists>r. 0 < r \<and> sqrt_to_double q = Fin False r)"
proof -
  define e where "e = max (ilog 2 q div 2) (- 1022) - 52"
  define a where "a = q / pow2 (2 * e)"
  define n where "n = int (isqrt (nat \<lfloor>a\<rfloor>))"
  define h where "h = (of_int n + 1 / 2) * (of_int n + 1 / 2 :: rat)"
  define m where "m = (if a < h then n else if h < a then n + 1 else if even n then n else n + 1)"
  have qpos: "0 < q" using assms pow2_pos [of "- 2044"] by linarith
  have il: "- 2044 \<le> ilog 2 q" by (rule ilog2_ge [OF assms])
  then have "2 * e \<le> ilog 2 q" by (simp add: e_def)
  then have "pow2 (2 * e) \<le> pow2 (ilog 2 q)" by (rule pow2_mono)
  also have "\<dots> \<le> q" by (rule ilog2_bounds(1) [OF qpos])
  finally have "1 \<le> a" by (simp add: a_def)
  then have "0 < nat \<lfloor>a\<rfloor>" by simp
  then have "0 < n" unfolding n_def by (simp add: isqrt_pos)
  then have "0 < m" by (simp add: m_def)
  then have "0 < of_int m * pow2 e" by simp
  moreover have "sqrt_to_double q =
      (if pow2 1024 \<le> of_int m * pow2 e then Inf False else Fin False (of_int m * pow2 e))"
    by (simp only: sqrt_to_double_def Let_def e_def a_def n_def h_def m_def)
  ultimately show ?thesis by auto
qed

lemma msqrt_pos:
  assumes "at_least (pow2 j) s" and "- 2044 \<le> j"
  shows "\<exists>n. msqrt s = Inr n \<and> fgt n (Fin False 0) \<and> n \<noteq> NaN"
proof (cases s)
  case NaN
  with assms(1) show ?thesis by simp
next
  case (Inf t)
  with assms(1) have "msqrt s = Inr (Inf False)" by simp
  moreover have "fgt (Inf False) (Fin False 0)" by (simp add: fgt_def)
  ultimately show ?thesis by blast
next
  case (Fin t q)
  with assms(1) have q: "\<not> t" "pow2 j \<le> q" by simp_all
  have "pow2 (- 2044) \<le> pow2 j" using assms(2) by (rule pow2_mono)
  with q have big: "pow2 (- 2044) \<le> q" by linarith
  then have q0: "q \<noteq> 0" using pow2_pos [of "- 2044"] by linarith
  have ms: "msqrt s = Inr (sqrt_to_double q)" using q(1) q0 by (simp add: Fin)
  from sqrt_to_double_pos [OF big] show ?thesis
  proof
    assume "sqrt_to_double q = Inf False"
    with ms have "msqrt s = Inr (Inf False)" by simp
    moreover have "fgt (Inf False) (Fin False 0)" by (simp add: fgt_def)
    ultimately show ?thesis by blast
  next
    assume "\<exists>r. 0 < r \<and> sqrt_to_double q = Fin False r"
    then obtain r where r: "0 < r" "sqrt_to_double q = Fin False r" by blast
    with ms have "msqrt s = Inr (Fin False r)" by simp
    moreover have "fgt (Fin False r) (Fin False 0)" using r(1) by (simp add: fgt_def sval_def)
    ultimately show ?thesis by blast
  qed
qed

lemma fmul_self_nonneg: "x \<noteq> NaN \<Longrightarrow> at_least 0 (fmul x x)"
  by (cases x) (auto intro!: round_nonneg)

lemma calculate_norm_root: "calculate_norm v = Inr (spec_norm v)"
  using calculate_norm_total [of v]
  by (auto simp: calculate_norm_def spec_norm_def root_def py_sum_def)

lemma calculate_norm_pos:
  assumes "\<forall>x\<in>set v. at_least 0 x" and "x \<in> set v" and "at_least (pow2 j) x" and "- 537 \<le> j"
  shows "fgt (spec_norm v) (Fin False 0) \<and> spec_norm v \<noteq> NaN"
proof -
  have nn: "\<forall>y\<in>set (map (\<lambda>x. fmul x x) v). at_least 0 y"
    using assms(1) by (auto intro!: fmul_self_nonneg)
  have sq: "at_least (pow2 (j + j)) (fmul x x)"
    using assms(3,4) by (intro fmul_at_least) simp_all
  have "at_least (pow2 (j + j)) (foldl fadd (Fin False 0) (map (\<lambda>x. fmul x x) v))"
    by (rule foldl_fadd_at_least_mem [OF _ nn _ sq]) (use assms in auto)
  from msqrt_pos [OF this] assms(4) show ?thesis
    by (auto simp: spec_norm_def root_def)
qed

lemma fdiv_quot: "fgt n (Fin False 0) \<Longrightarrow> fdiv x n = Inr (quot x n)"
  by (cases n; cases x) (auto simp: fgt_def quot_def sval_def split: if_splits)

lemma divide_all_quot: "fgt n (Fin False 0) \<Longrightarrow> divide_all v n = Inr (map (\<lambda>x. quot x n) v)"
  by (induction v) (simp_all add: fdiv_quot)

lemma quot_not_NaN:
  assumes "at_most b x" and "fgt n (Fin False 0)"
  shows "quot x n \<noteq> NaN"
proof -
  from assms(1) obtain a where x: "x = Fin False a" by (cases x) auto
  show ?thesis
  proof (cases n)
    case NaN
    with assms(2) show ?thesis by (simp add: fgt_def)
  next
    case (Inf t)
    then show ?thesis by (simp add: quot_def x)
  next
    case (Fin t c)
    with assms(2) have "c \<noteq> 0" by (auto simp: fgt_def sval_def split: if_splits)
    then show ?thesis
      using round_to_double_cases [of "False \<noteq> t" "a / c"] by (auto simp: quot_def x Fin)
  qed
qed

lemma raw_vector_length [simp]: "length (spec_raw_vector text d) = d"
  by (simp add: spec_raw_vector_def)

lemma raw_vector_at_most: "x \<in> set (spec_raw_vector text d) \<Longrightarrow> at_most (pow2 60) x"
proof -
  have z: "at_most (pow2 60) (Fin False 0)" by (simp add: less_imp_le)
  assume "x \<in> set (spec_raw_vector text d)"
  then show ?thesis
    by (auto simp: spec_raw_vector_def
        intro!: fadd_at_most foldl_fadd_at_most z char_term_at_most hash_term_at_most)
qed

lemma foldl_fadd_all_zero:
  "\<forall>x\<in>set xs. x = Fin False 0 \<Longrightarrow> foldl fadd (Fin False 0) xs = Fin False 0"
  by (induction xs) (simp_all add: sval_def)

lemma raw_vector_degenerate:
  assumes "degenerate text dimensions"
  shows "spec_raw_vector text (nat dimensions) = [Fin False 0]"
proof -
  from assms have d: "nat dimensions = 1" and c: "\<forall>c\<in>set text. c mod 255 = 0"
    and h: "sum_list (map int text) mod 100 = 0"
    by (simp_all add: degenerate_def list_all_iff)
  have "foldl fadd (Fin False 0)
      (map (\<lambda>p. spec_char_term (snd p)) (filter (\<lambda>p. fst p mod 1 = 0) (enumerate 0 text)))
    = Fin False 0"
    by (rule foldl_fadd_all_zero) (use c in \<open>auto simp: char_term_zero in_set_enumerate_eq\<close>)
  moreover have "spec_hash_term text 0 = Fin False 0"
    using h by (simp add: hash_term_zero)
  ultimately show ?thesis
    by (simp add: d spec_raw_vector_def sval_def)
qed

lemma raw_vector_has_positive:
  assumes "1 \<le> dimensions" and "\<not> degenerate text dimensions"
  shows "\<exists>x\<in>set (spec_raw_vector text (nat dimensions)). at_least (pow2 (- 12)) x"
proof -
  define d where "d = nat dimensions"
  define h where "h = sum_list (map int text)"
  let ?terms = "\<lambda>j. map (\<lambda>p. spec_char_term (snd p)) (filter (\<lambda>p. fst p mod d = j) (enumerate 0 text))"
  let ?acc = "\<lambda>j. foldl fadd (Fin False 0) (?terms j)"
  have dpos: "0 < d" using assms(1) by (simp add: d_def)
  have tn: "\<forall>t\<in>set (?terms j). at_least 0 t" for j
    using char_term_at_most by (auto intro: at_most_at_least)
  have accn: "at_least 0 (?acc j)" for j
    by (rule foldl_fadd_nonneg [OF _ tn]) simp
  have hn: "at_least 0 (spec_hash_term text j)" for j
    by (rule at_most_at_least [OF hash_term_at_most])
  have el: "fadd (?acc j) (spec_hash_term text j) \<in> set (spec_raw_vector text d)" if "j < d" for j
    using that by (auto simp: spec_raw_vector_def)
  have by_hash: ?thesis if j: "j < d" and nz: "(int j + h) mod 100 \<noteq> 0" for j
  proof -
    have "at_least (pow2 (- 10)) (spec_hash_term text j)"
      using nz by (intro hash_term_at_least) (simp add: h_def)
    then have "at_least (pow2 (- 10)) (fadd (?acc j) (spec_hash_term text j))"
      by (intro fadd_at_least_right accn) simp_all
    then have "at_least (pow2 (- 12)) (fadd (?acc j) (spec_hash_term text j))"
      by (rule at_least_mono) (simp add: pow2_le_iff)
    with el [OF j] show ?thesis unfolding d_def by blast
  qed
  show ?thesis
  proof (cases "2 \<le> d")
    case True
    have "(int 0 + h) mod 100 \<noteq> 0 \<or> (int 1 + h) mod 100 \<noteq> 0" by presburger
    with by_hash [of 0] by_hash [of 1] True show ?thesis by auto
  next
    case False
    with dpos have d1: "d = 1" by simp
    show ?thesis
    proof (cases "h mod 100 = 0")
      case False
      with by_hash [of 0] d1 show ?thesis by simp
    next
      case True
      with assms d1 obtain c where c: "c \<in> set text" "c mod 255 \<noteq> 0"
        by (auto simp: degenerate_def list_all_iff d_def h_def)
      from c(1) obtain i where "i < length text" "text ! i = c"
        by (auto simp: in_set_conv_nth)
      then have "(i, c) \<in> set (enumerate 0 text)"
        by (simp add: in_set_enumerate_eq)
      then have mem: "spec_char_term c \<in> set (?terms 0)"
        by (force simp: d1)
      have "at_least (pow2 (- 12)) (?acc 0)"
        by (rule foldl_fadd_at_least_mem [OF _ tn mem char_term_at_least [OF c(2)]]) simp_all
      then have "at_least (pow2 (- 12)) (fadd (?acc 0) (spec_hash_term text 0))"
        by (intro fadd_at_least_left hn) simp_all
      with el [of 0] d1 show ?thesis unfolding d_def by auto
    qed
  qed
qed

lemma spec_generateMock_length [simp]: "length (spec_generateMock text d) = d"
  by (simp add: spec_generateMock_def Let_def)

lemma spec_generateMock_no_NaN: "NaN \<notin> set (spec_generateMock t d)"
proof (cases "fgt (spec_norm (spec_raw_vector t d)) (Fin False 0)")
  case True
  have "quot x (spec_norm (spec_raw_vector t d)) \<noteq> NaN" if "x \<in> set (spec_raw_vector t d)" for x
    by (rule quot_not_NaN [OF raw_vector_at_most [OF that] True])
  then show ?thesis
    using True by (auto simp: spec_generateMock_def Let_def) metis
next
  case False
  have "x \<noteq> NaN" if "x \<in> set (spec_raw_vector t d)" for x
    by (rule at_most_not_NaN [OF raw_vector_at_most [OF that]])
  then show ?thesis
    using False by (auto simp: spec_generateMock_def Let_def)
qed

lemma generate_mock_unfold:
  assumes "1 \<le> dimensions" and "allocatable capacity dimensions"
  shows "generate_mock_embedding capacity text dimensions =
           (let v = spec_raw_vector text (nat dimensions); n = spec_norm v
            in if fgt n (Fin False 0) then divide_all v n else Inr v)"
  by (simp add: generate_mock_embedding_def raw_embedding_spec [OF assms] calculate_norm_root
      Let_def)

lemma generate_mock_eq_spec:
  "1 \<le> dimensions \<Longrightarrow> allocatable capacity dimensions \<Longrightarrow>
   generate_mock_embedding capacity text dimensions =
     Inr (spec_generateMock text (nat dimensions))"
  by (simp add: generate_mock_unfold spec_generateMock_def Let_def divide_all_quot)

lemma generate_mock_not_allocatable:
  "\<not> allocatable capacity dimensions \<Longrightarrow>
   generate_mock_embedding capacity text dimensions =
     Inl (if dimensions < - (2 ^ 63) \<or> 2 ^ 63 \<le> dimensions then OverflowError else MemoryError)"
  by (auto simp: generate_mock_embedding_def raw_embedding_def list_repeat_def allocatable_def)

lemma generate_mock_empty_text:
  "dimensions \<le> 0 \<Longrightarrow> allocatable capacity dimensions \<Longrightarrow>
   generate_mock_embedding capacity [] dimensions = Inr []"
  by (simp add: generate_mock_embedding_def raw_embedding_def list_repeat_allocatable
      calculate_norm_def py_sum_def fgt_def sval_def)

lemma generate_mock_no_dimensions:
  assumes "dimensions \<le> 0" and "allocatable capacity dimensions" and "text \<noteq> []"
  shows "generate_mock_embedding capacity text dimensions =
           Inl (if dimensions = 0 then ZeroDivisionError else IndexError)"
proof -
  from assms(3) obtain c cs where t: "text = c # cs" by (cases "text") auto
  have "add_chars dimensions (enumerate 0 text) [] =
      Inl (if dimensions = 0 then ZeroDivisionError else IndexError)"
    using assms(1) by (simp add: t py_index_def)
  then show ?thesis
    using assms(1)
    by (simp add: generate_mock_embedding_def raw_embedding_def
        list_repeat_allocatable [OF assms(2)])
qed

text \<open>What a call produces, for all arguments.\<close>

lemma generate_mock_outcome:
  "generate_mock_embedding capacity text dimensions =
     (if dimensions < - (2 ^ 63) \<or> 2 ^ 63 \<le> dimensions then Inl OverflowError
      else if 2 ^ 60 \<le> dimensions \<or> int capacity < dimensions then Inl MemoryError
      else if 1 \<le> dimensions then Inr (spec_generateMock text (nat dimensions))
      else if text = [] then Inr []
      else if dimensions = 0 then Inl ZeroDivisionError
      else Inl IndexError)"
proof (cases "allocatable capacity dimensions")
  case False
  then show ?thesis
    using generate_mock_not_allocatable [OF False, of "text"]
    by (auto simp: allocatable_def)
next
  case True
  then have r: "\<not> (dimensions < - (2 ^ 63) \<or> 2 ^ 63 \<le> dimensions)"
    "\<not> (2 ^ 60 \<le> dimensions \<or> int capacity < dimensions)"
    by (auto simp: allocatable_def)
  show ?thesis
  proof (cases "1 \<le> dimensions")
    case d: True
    then show ?thesis using r by (simp add: generate_mock_eq_spec [OF d True])
  next
    case d: False
    then have d0: "dimensions \<le> 0" by simp
    show ?thesis
    proof (cases "text = []")
      case t: True
      then show ?thesis using r d by (simp add: generate_mock_empty_text [OF d0 True])
    next
      case t: False
      then show ?thesis
        using r d by (simp add: generate_mock_no_dimensions [OF d0 True t])
    qed
  qed
qed

lemma at_least_pos:
  assumes "at_least (pow2 j) x"
  shows "fgt x (Fin False 0)"
proof (cases x)
  case NaN
  with assms show ?thesis by simp
next
  case (Inf s)
  with assms show ?thesis by (simp add: fgt_def)
next
  case (Fin s r)
  with assms have "\<not> s" "pow2 j \<le> r" by simp_all
  moreover from this have "0 < r" using pow2_pos [of j] by linarith
  ultimately show ?thesis by (simp add: Fin fgt_def sval_def)
qed

lemma divide_all_nth:
  "divide_all v n = Inr w \<Longrightarrow> length w = length v \<and> (\<forall>i<length v. fdiv (v ! i) n = Inr (w ! i))"
proof (induction v arbitrary: w)
  case Nil
  then show ?case by simp
next
  case (Cons x v)
  then show ?case
    by (auto simp: nth_Cons' split: sum.splits)
qed

subsection \<open>A worked example: the text \<open>abc\<close> in two dimensions\<close>

lemmas op_eval = quot_def of_small_int_def int_to_float_def sval_def root_def

lemma upt_0_2: "[0..<2] = [0, Suc 0]"
  by (simp add: upt_rec numeral_2_eq_2)

lemma example_char_terms:
  "spec_char_term 97 = Fin False (2741014361442749 / 72057594037927936)"
  "spec_char_term 98 = Fin False (2769272241457623 / 72057594037927936)"
  "spec_char_term 99 = Fin False (5595060242944993 / 144115188075855872)"
  by (simp_all add: spec_char_term_def float_lit_255 float_lit_0_1 op_eval float_eval)

lemma example_hash_terms:
  "spec_hash_term [97, 98, 99] 0 = Fin False (3386706919782613 / 36028797018963968)"
  "spec_hash_term [97, 98, 99] (Suc 0) = Fin False (3422735716801577 / 36028797018963968)"
  by (simp_all add: spec_hash_term_def float_lit_1000 op_eval float_eval)

lemma example_raw:
  "spec_raw_vector [97, 98, 99] 2 =
     [Fin False (1538994790310059 / 9007199254740992),
      Fin False (1201842959382597 / 9007199254740992)]"
  by (simp add: spec_raw_vector_def upt_0_2 example_char_terms example_hash_terms sval_def
      float_eval)

lemma example_norm:
  "spec_norm [Fin False (1538994790310059 / 9007199254740992),
              Fin False (1201842959382597 / 9007199254740992)] =
     Fin False (7810691609448189 / 36028797018963968)"
  by (simp add: spec_norm_def op_eval float_eval sqrt_eval)

lemma example_result:
  "spec_generateMock [97, 98, 99] 2 =
     [Fin False (1774750997922239 / 2251799813685248),
      Fin False (5543805618940021 / 9007199254740992)]"
  by (simp add: spec_generateMock_def example_raw example_norm fgt_def op_eval float_eval)

section \<open>Properties of the validator\<close>

text \<open>
  Claim C5, as amended. For every non-empty vector whose length differs from 1024,
  \<open>validate_embedding\<close> returns an invalid verdict whose first issue is
  \<open>Expected 1024 dimensions, got {len(vector)}\<close>, and that issue occurs once. Whenever
  \<open>validate_embedding\<close> returns, the verdict is valid exactly when the issue list is
  empty. (The empty vector is excluded: \<open>min\<close> raises on it, see below.)
\<close>

theorem validate_dimension_mismatch:
  "(v \<noteq> [] \<and> length v \<noteq> 1024 \<longrightarrow>
      (\<exists>issues. validate_embedding v = Inr (False, issues) \<and>
         hd issues = dim_issue (length v) \<and> count_list issues (dim_issue (length v)) = 1)) \<and>
   (\<forall>ok issues. validate_embedding v = Inr (ok, issues) \<longrightarrow> (ok \<longleftrightarrow> issues = []))"
proof (intro conjI impI allI)
  assume "v \<noteq> [] \<and> length v \<noteq> 1024"
  then have ne: "v \<noteq> []" and len: "length v \<noteq> 1024" by simp_all
  from validate_nonempty [OF ne] obtain n mn mx where
    val: "validate_embedding v =
            Inr (dim_part v @ finite_part v @ norm_part n @ range_part mn mx @ zero_part v = [],
                 dim_part v @ finite_part v @ norm_part n @ range_part mn mx @ zero_part v)"
    by blast
  have "count_list (finite_part v) (dim_issue (length v)) = 0"
    by (rule count_list_zero) (rule finite_part_other, simp_all)
  with len val show "\<exists>issues. validate_embedding v = Inr (False, issues) \<and>
         hd issues = dim_issue (length v) \<and> count_list issues (dim_issue (length v)) = 1"
    by (simp add: dim_part_def norm_part_def range_part_def zero_part_def)
next
  fix ok issues
  assume a: "validate_embedding v = Inr (ok, issues)"
  then have "v \<noteq> []" using validate_empty by auto
  from validate_nonempty [OF this] a show "ok \<longleftrightarrow> issues = []" by auto
qed

theorem validate_dimension_mismatch_witness:
  "[NaN] \<noteq> [] \<and> length [NaN] \<noteq> 1024 \<and>
   validate_embedding [NaN] = Inr (False, [dim_issue 1, nan_issue 0]) \<and>
   hd [dim_issue 1, nan_issue 0] = dim_issue (length [NaN]) \<and>
   count_list [dim_issue 1, nan_issue 0] (dim_issue (length [NaN])) = 1 \<and>
   (False \<longleftrightarrow> [dim_issue 1, nan_issue 0] = [])"
  using validate_dimension_mismatch [of "[NaN]"]
  by (simp add: validate_embedding_def calculate_norm_def py_sum_def fgt_def)

text \<open>
  Claim C5 as stated fails on the empty vector: its length differs from 1024, but
  \<open>min(embedding)\<close> raises ValueError and no verdict is returned.
\<close>

theorem validate_empty_no_verdict:
  "length ([] :: pyfloat list) \<noteq> 1024 \<and> validate_embedding [] = Inl ValueError"
  by (simp add: validate_embedding_def calculate_norm_def py_sum_def)

text \<open>
  Claim C6. For every vector with at least one NaN or infinite element,
  \<open>validate_embedding\<close> returns an invalid verdict, and in its issue list
  \<open>NaN value at index {i}\<close> occurs exactly once for every index \<open>i\<close> holding a NaN and
  \<open>Infinite value at index {i}\<close> exactly once for every index holding an infinity; no
  such issue occurs for any other index.
\<close>

theorem validate_reports_nonfinite:
  assumes "\<exists>x\<in>set v. isnan x \<or> isinf x"
  shows "\<exists>issues. validate_embedding v = Inr (False, issues) \<and>
           (\<forall>i. count_list issues (nan_issue i) = (if i < length v \<and> isnan (v ! i) then 1 else 0) \<and>
                count_list issues (inf_issue i) = (if i < length v \<and> isinf (v ! i) then 1 else 0))"
proof -
  from assms have ne: "v \<noteq> []" by auto
  from validate_nonempty [OF ne] obtain n mn mx where
    val: "validate_embedding v =
            Inr (dim_part v @ finite_part v @ norm_part n @ range_part mn mx @ zero_part v = [],
                 dim_part v @ finite_part v @ norm_part n @ range_part mn mx @ zero_part v)"
    by blast
  let ?issues = "dim_part v @ finite_part v @ norm_part n @ range_part mn mx @ zero_part v"
  have cnt: "count_list ?issues (nan_issue i) = (if i < length v \<and> isnan (v ! i) then 1 else 0)"
    "count_list ?issues (inf_issue i) = (if i < length v \<and> isinf (v ! i) then 1 else 0)" for i
    using count_finite_nan [of 0 v i] count_finite_inf [of 0 v i]
    by (simp_all add: dim_part_def finite_part_def norm_part_def range_part_def zero_part_def)
  from assms obtain i where i: "i < length v" "isnan (v ! i) \<or> isinf (v ! i)"
    by (auto simp: in_set_conv_nth simp del: isnan_iff)
  then have "count_list ?issues (nan_issue i) = 1 \<or> count_list ?issues (inf_issue i) = 1"
    using cnt [of i] by (auto simp del: isnan_iff)
  then have "?issues \<noteq> []" by auto
  with val cnt show ?thesis by (auto simp del: isnan_iff)
qed

theorem validate_reports_nonfinite_witness:
  "(\<exists>x\<in>set [NaN, Inf True]. isnan x \<or> isinf x) \<and>
   (\<exists>issues. validate_embedding [NaN, Inf True] = Inr (False, issues) \<and>
      count_list issues (nan_issue 0) = 1 \<and> count_list issues (inf_issue 0) = 0 \<and>
      count_list issues (nan_issue 1) = 0 \<and> count_list issues (inf_issue 1) = 1 \<and>
      count_list issues (nan_issue 2) = 0 \<and> count_list issues (inf_issue 2) = 0)"
proof -
  have h: "\<exists>x\<in>set [NaN, Inf True]. isnan x \<or> isinf x" by simp
  from validate_reports_nonfinite [OF h] obtain issues where
    v: "validate_embedding [NaN, Inf True] = Inr (False, issues)" and
    c: "\<And>i. count_list issues (nan_issue i) =
            (if i < length [NaN, Inf True] \<and> isnan ([NaN, Inf True] ! i) then 1 else 0) \<and>
          count_list issues (inf_issue i) =
            (if i < length [NaN, Inf True] \<and> isinf ([NaN, Inf True] ! i) then 1 else 0)"
    by blast
  from c [of 0] c [of 1] c [of 2] v h show ?thesis by simp
qed

text \<open>
  Claim C10. For every vector with at least one NaN element the computed norm is NaN,
  neither \<open>norm < 0.9\<close> nor \<open>norm > 1.1\<close> holds for it, and \<open>validate_embedding\<close>
  returns an issue list without any norm issue.
\<close>

theorem nan_suppresses_norm_issue:
  assumes "\<exists>x\<in>set v. isnan x"
  shows "calculate_norm v = Inr NaN \<and>
         \<not> flt NaN (float_lit (9 / 10)) \<and> \<not> fgt NaN (float_lit (11 / 10)) \<and>
         (\<exists>ok issues. validate_embedding v = Inr (ok, issues) \<and> (\<forall>n. norm_issue n \<notin> set issues))"
proof -
  from assms have mem: "NaN \<in> set v" by auto
  then have ne: "v \<noteq> []" by auto
  have nrm: "calculate_norm v = Inr NaN" by (rule calculate_norm_NaN [OF mem])
  have cmp: "\<not> flt NaN (float_lit (9 / 10))" "\<not> fgt NaN (float_lit (11 / 10))"
    by (simp_all add: fgt_def)
  from validate_nonempty [OF ne] nrm obtain mn mx where
    val: "validate_embedding v =
            Inr (dim_part v @ finite_part v @ norm_part NaN @ range_part mn mx @ zero_part v = [],
                 dim_part v @ finite_part v @ norm_part NaN @ range_part mn mx @ zero_part v)"
    by auto
  have "norm_issue n \<notin> set (dim_part v @ finite_part v @ norm_part NaN @ range_part mn mx @ zero_part v)"
    for n
    using finite_part_other [of "norm_issue n" v] cmp
    by (simp add: dim_part_def norm_part_def range_part_def zero_part_def)
  with val nrm cmp show ?thesis by blast
qed

theorem nan_suppresses_norm_issue_witness:
  "(\<exists>x\<in>set [NaN, Fin False 1000]. isnan x) \<and>
   calculate_norm [NaN, Fin False 1000] = Inr NaN \<and>
   (\<exists>ok issues. validate_embedding [NaN, Fin False 1000] = Inr (ok, issues) \<and>
      (\<forall>n. norm_issue n \<notin> set issues))"
proof -
  have h: "\<exists>x\<in>set [NaN, Fin False 1000]. isnan x" by simp
  from nan_suppresses_norm_issue [OF h] h show ?thesis by blast
qed

text \<open>
  Claim C7, as amended. For every non-empty vector, \<open>validate_embedding\<close> returns; when
  the computed norm \<open>sqrt(sum of squares)\<close> lies in the closed interval between the
  literals \<open>0.9\<close> and \<open>1.1\<close>, the issue list holds no norm issue; when it is strictly
  below \<open>0.9\<close> or strictly above \<open>1.1\<close>, the verdict is invalid and the issue list holds,
  once, the norm issue that reports this norm.
\<close>

theorem validate_norm_check:
  "v \<noteq> [] \<longrightarrow>
     (\<exists>n ok issues. calculate_norm v = Inr n \<and> validate_embedding v = Inr (ok, issues) \<and>
        (fle (float_lit (9 / 10)) n \<and> fle n (float_lit (11 / 10)) \<longrightarrow>
           (\<forall>m. norm_issue m \<notin> set issues)) \<and>
        (flt n (float_lit (9 / 10)) \<or> fgt n (float_lit (11 / 10)) \<longrightarrow>
           \<not> ok \<and> count_list issues (norm_issue n) = 1))"
proof
  assume ne: "v \<noteq> []"
  from validate_nonempty [OF ne] obtain n mn mx where
    nrm: "calculate_norm v = Inr n" and
    val: "validate_embedding v =
            Inr (dim_part v @ finite_part v @ norm_part n @ range_part mn mx @ zero_part v = [],
                 dim_part v @ finite_part v @ norm_part n @ range_part mn mx @ zero_part v)"
    by blast
  let ?issues = "dim_part v @ finite_part v @ norm_part n @ range_part mn mx @ zero_part v"
  have inside: "\<forall>m. norm_issue m \<notin> set ?issues"
    if "fle (float_lit (9 / 10)) n \<and> fle n (float_lit (11 / 10))"
  proof -
    from that have "\<not> flt n (float_lit (9 / 10))" "\<not> fgt n (float_lit (11 / 10))"
      by (simp_all add: fle_not_flt fgt_def)
    then show ?thesis
      using finite_part_other [of "norm_issue _" v]
      by (simp add: dim_part_def norm_part_def range_part_def zero_part_def)
  qed
  have outside: "?issues \<noteq> [] \<and> count_list ?issues (norm_issue n) = 1"
    if "flt n (float_lit (9 / 10)) \<or> fgt n (float_lit (11 / 10))"
    using that other_parts_no_issue [of "norm_issue n" v]
    by (simp add: norm_part_def range_part_def zero_part_def)
  from nrm val inside outside show "\<exists>n ok issues. calculate_norm v = Inr n \<and>
        validate_embedding v = Inr (ok, issues) \<and>
        (fle (float_lit (9 / 10)) n \<and> fle n (float_lit (11 / 10)) \<longrightarrow>
           (\<forall>m. norm_issue m \<notin> set issues)) \<and>
        (flt n (float_lit (9 / 10)) \<or> fgt n (float_lit (11 / 10)) \<longrightarrow>
           \<not> ok \<and> count_list issues (norm_issue n) = 1)"
    by blast
qed

theorem validate_norm_check_witness:
  "[Fin False (1 / 2)] \<noteq> [] \<and> calculate_norm [Fin False (1 / 2)] = Inr (Fin False (1 / 2)) \<and>
   flt (Fin False (1 / 2)) (float_lit (9 / 10)) \<and>
   (\<exists>ok issues. validate_embedding [Fin False (1 / 2)] = Inr (ok, issues) \<and> \<not> ok \<and>
      count_list issues ''Norm is 0.5, expected ~1.0 (normalized)'' = 1) \<and>
   calculate_norm [Fin False (3 / 2)] = Inr (Fin False (3 / 2)) \<and>
   fgt (Fin False (3 / 2)) (float_lit (11 / 10)) \<and>
   (\<exists>ok issues. validate_embedding [Fin False (3 / 2)] = Inr (ok, issues) \<and> \<not> ok \<and>
      count_list issues ''Norm is 1.5, expected ~1.0 (normalized)'' = 1) \<and>
   calculate_norm [Fin False 1] = Inr (Fin False 1) \<and>
   fle (float_lit (9 / 10)) (Fin False 1) \<and> fle (Fin False 1) (float_lit (11 / 10)) \<and>
   (\<exists>ok issues. validate_embedding [Fin False 1] = Inr (ok, issues) \<and>
      (\<forall>m. norm_issue m \<notin> set issues)) \<and>
   calculate_norm [float_lit (9 / 10)] = Inr (float_lit (9 / 10)) \<and>
   fle (float_lit (9 / 10)) (float_lit (9 / 10)) \<and>
   (\<exists>ok issues. validate_embedding [float_lit (9 / 10)] = Inr (ok, issues) \<and>
      (\<forall>m. norm_issue m \<notin> set issues))"
proof -
  have s1: "norm_issue (Fin False (1 / 2)) = ''Norm is 0.5, expected ~1.0 (normalized)''"
    and s2: "norm_issue (Fin False (3 / 2)) = ''Norm is 1.5, expected ~1.0 (normalized)''"
    by (simp_all add: norm_issue_def fmt_eval)
  have c: "flt (Fin False (1 / 2)) (float_lit (9 / 10))"
    "fgt (Fin False (3 / 2)) (float_lit (11 / 10))"
    "fle (float_lit (9 / 10)) (Fin False 1)" "fle (Fin False 1) (float_lit (11 / 10))"
    by (simp_all add: float_lit_0_9 float_lit_1_1 fgt_def sval_def)
  have b: "calculate_norm [float_lit (9 / 10)] = Inr (float_lit (9 / 10))"
    "fle (float_lit (9 / 10)) (float_lit (9 / 10))"
    "fle (float_lit (9 / 10)) (float_lit (11 / 10))"
    by (simp_all add: float_lit_0_9 float_lit_1_1 calculate_norm_single sval_def)
  from validate_norm_check [of "[float_lit (9 / 10)]"] b
  have edge: "\<exists>ok issues. validate_embedding [float_lit (9 / 10)] = Inr (ok, issues) \<and>
      (\<forall>m. norm_issue m \<notin> set issues)"
    by auto
  from validate_norm_check [of "[Fin False (1 / 2)]"] validate_norm_check [of "[Fin False (3 / 2)]"]
    validate_norm_check [of "[Fin False 1]"] c
  have "[Fin False (1 / 2)] \<noteq> [] \<and> calculate_norm [Fin False (1 / 2)] = Inr (Fin False (1 / 2)) \<and>
   flt (Fin False (1 / 2)) (float_lit (9 / 10)) \<and>
   (\<exists>ok issues. validate_embedding [Fin False (1 / 2)] = Inr (ok, issues) \<and> \<not> ok \<and>
      count_list issues ''Norm is 0.5, expected ~1.0 (normalized)'' = 1) \<and>
   calculate_norm [Fin False (3 / 2)] = Inr (Fin False (3 / 2)) \<and>
   fgt (Fin False (3 / 2)) (float_lit (11 / 10)) \<and>
   (\<exists>ok issues. validate_embedding [Fin False (3 / 2)] = Inr (ok, issues) \<and> \<not> ok \<and>
      count_list issues ''Norm is 1.5, expected ~1.0 (normalized)'' = 1) \<and>
   calculate_norm [Fin False 1] = Inr (Fin False 1) \<and>
   fle (float_lit (9 / 10)) (Fin False 1) \<and> fle (Fin False 1) (float_lit (11 / 10)) \<and>
   (\<exists>ok issues. validate_embedding [Fin False 1] = Inr (ok, issues) \<and>
      (\<forall>m. norm_issue m \<notin> set issues))"
    by (simp add: calculate_norm_single s1 [symmetric] s2 [symmetric]) blast
  with b edge show ?thesis by blast
qed

text \<open>
  Claim C7 as stated fails on the empty vector: its norm \<open>0.0\<close> is below \<open>0.9\<close>, but
  \<open>min\<close> raises before any issue list is returned.
\<close>

theorem validate_empty_norm_below:
  "calculate_norm [] = Inr (Fin False 0) \<and> flt (Fin False 0) (float_lit (9 / 10)) \<and>
   validate_embedding [] = Inl ValueError"
  by (simp add: validate_empty calculate_norm_def py_sum_def float_lit_0_9 sval_def)




text \<open>
  Claim C9, as amended. The vector of 1024 zeros yields an invalid verdict with exactly
  the norm issue and the degeneracy issue. For every non-empty vector the degeneracy
  issue is reported exactly when every element's absolute value is below \<open>1e-6\<close>.
\<close>

theorem validate_all_zero:
  "validate_embedding (replicate 1024 (Fin False 0)) =
     Inr (False, [''Norm is 0.0, expected ~1.0 (normalized)'',
                  ''All values are zero (or very close to zero)'']) \<and>
   (v \<noteq> [] \<longrightarrow>
      (\<exists>ok issues. validate_embedding v = Inr (ok, issues) \<and>
         (zero_issue \<in> set issues \<longleftrightarrow>
            list_all (\<lambda>x. flt (fabs x) (float_lit (1 / 1000000))) v)))"
proof
  let ?z = "replicate 1024 (Fin False 0)"
  have "dim_part ?z = []" by (simp add: dim_part_def)
  moreover have "finite_part ?z = []"
    unfolding finite_part_def by (rule check_finite_clean) simp
  moreover have "norm_part (Fin False 0) = [''Norm is 0.0, expected ~1.0 (normalized)'']"
    by (simp add: norm_part_def norm_issue_def float_lit_0_9 sval_def)
  moreover have "range_part (Fin False 0) (Fin False 0) = []"
    by (simp add: range_part_def float_lit_10 fgt_def sval_def)
  moreover have "zero_part ?z = [''All values are zero (or very close to zero)'']"
    by (simp add: zero_part_def zero_issue_def float_lit_1em6 sval_def list_all_iff)
  ultimately show "validate_embedding ?z =
     Inr (False, [''Norm is 0.0, expected ~1.0 (normalized)'',
                  ''All values are zero (or very close to zero)''])"
    using validate_unfold [OF calculate_norm_zeros [of 1024] py_min_zeros [of 1024]
        py_max_zeros [of 1024]]
    by simp
next
  show "v \<noteq> [] \<longrightarrow>
      (\<exists>ok issues. validate_embedding v = Inr (ok, issues) \<and>
         (zero_issue \<in> set issues \<longleftrightarrow>
            list_all (\<lambda>x. flt (fabs x) (float_lit (1 / 1000000))) v))"
  proof
    assume ne: "v \<noteq> []"
    from validate_nonempty [OF ne] obtain n mn mx where
      val: "validate_embedding v =
              Inr (dim_part v @ finite_part v @ norm_part n @ range_part mn mx @ zero_part v = [],
                   dim_part v @ finite_part v @ norm_part n @ range_part mn mx @ zero_part v)"
      by blast
    have "zero_issue \<in> set (dim_part v @ finite_part v @ norm_part n @ range_part mn mx @ zero_part v)
        \<longleftrightarrow> list_all (\<lambda>x. flt (fabs x) (float_lit (1 / 1000000))) v"
      using finite_part_other [of zero_issue v]
      by (simp add: dim_part_def norm_part_def range_part_def zero_part_def)
    with val show "\<exists>ok issues. validate_embedding v = Inr (ok, issues) \<and>
         (zero_issue \<in> set issues \<longleftrightarrow>
            list_all (\<lambda>x. flt (fabs x) (float_lit (1 / 1000000))) v)"
      by blast
  qed
qed

theorem validate_all_zero_witness:
  "[Fin False 0] \<noteq> [] \<and> list_all (\<lambda>x. flt (fabs x) (float_lit (1 / 1000000))) [Fin False 0] \<and>
   (\<exists>ok issues. validate_embedding [Fin False 0] = Inr (ok, issues) \<and> zero_issue \<in> set issues) \<and>
   [Fin False 1] \<noteq> [] \<and> \<not> list_all (\<lambda>x. flt (fabs x) (float_lit (1 / 1000000))) [Fin False 1] \<and>
   (\<exists>ok issues. validate_embedding [Fin False 1] = Inr (ok, issues) \<and> zero_issue \<notin> set issues)"
  using validate_all_zero [of "[Fin False 0]"] validate_all_zero [of "[Fin False 1]"]
  by (simp add: float_lit_1em6 sval_def)

text \<open>
  Claim C9 as stated fails on the empty vector: every element is (vacuously) below
  \<open>1e-6\<close>, so the degeneracy check would contribute its issue, but \<open>min\<close> has raised
  before and no issue list is returned.
\<close>

theorem validate_empty_degenerate:
  "zero_part [] = [zero_issue] \<and> validate_embedding [] = Inl ValueError"
  by (simp add: validate_empty zero_part_def)

section \<open>Properties of the generator\<close>

text \<open>
  Claim C2, as amended. For every text and every \<open>dimensions \<ge> 1\<close>, what
  \<open>generate_mock_embedding\<close> produces is known: OverflowError from \<open>2 ^ 63\<close> on, where
  \<open>[0.0] * dimensions\<close> has no valid count; MemoryError when the list is too long for
  the interpreter (from \<open>2 ^ 60\<close> on) or for the memory of the call; and otherwise the
  vector of the reference definition \<open>spec_generateMock\<close>.
\<close>

theorem generate_mock_refines_spec:
  assumes "1 \<le> dimensions"
  shows "generate_mock_embedding capacity text dimensions =
           (if 2 ^ 63 \<le> dimensions then Inl OverflowError
            else if 2 ^ 60 \<le> dimensions \<or> int capacity < dimensions then Inl MemoryError
            else Inr (spec_generateMock text (nat dimensions)))"
proof (cases "allocatable capacity dimensions")
  case True
  let ?v = "spec_raw_vector text (nat dimensions)"
  let ?n = "spec_norm ?v"
  have loops: "raw_embedding capacity text dimensions = Inr ?v"
    by (rule raw_embedding_spec [OF assms True])
  have nrm: "calculate_norm ?v = Inr ?n"
    by (rule calculate_norm_root)
  have "generate_mock_embedding capacity text dimensions =
      Inr (spec_generateMock text (nat dimensions))"
  proof (cases "fgt ?n (Fin False 0)")
    case True
    then have "divide_all ?v ?n = Inr (map (\<lambda>x. quot x ?n) ?v)"
      by (rule divide_all_quot)
    with True loops nrm show ?thesis
      by (simp add: generate_mock_embedding_def spec_generateMock_def Let_def)
  next
    case False
    with loops nrm show ?thesis
      by (simp add: generate_mock_embedding_def spec_generateMock_def Let_def)
  qed
  with True show ?thesis by (simp add: allocatable_def)
next
  case False
  with assms have "list_repeat capacity (Fin False 0) dimensions =
      (if 2 ^ 63 \<le> dimensions then Inl OverflowError else Inl MemoryError)"
    by (auto simp: list_repeat_def allocatable_def)
  with False assms show ?thesis
    by (auto simp: generate_mock_embedding_def raw_embedding_def allocatable_def)
qed

theorem generate_mock_refines_spec_witness:
  "(1::int) \<le> 2 \<and>
   generate_mock_embedding 1024 [97, 98, 99] 2 =
     Inr [Fin False (1774750997922239 / 2251799813685248),
          Fin False (5543805618940021 / 9007199254740992)] \<and>
   (1::int) \<le> 2000 \<and> generate_mock_embedding 1024 [97, 98, 99] 2000 = Inl MemoryError \<and>
   (1::int) \<le> 2 ^ 63 \<and> generate_mock_embedding 1024 [97, 98, 99] (2 ^ 63) = Inl OverflowError"
  using generate_mock_refines_spec [of 2 1024 "[97, 98, 99]"]
    generate_mock_refines_spec [of 2000 1024 "[97, 98, 99]"]
    generate_mock_refines_spec [of "2 ^ 63" 1024 "[97, 98, 99]"]
  by (simp add: example_result)

text \<open>
  Claim C2 as stated fails for a \<open>dimensions\<close> that is no valid list length: at
  \<open>2 ^ 63\<close> the statement \<open>[0.0] * dimensions\<close> raises OverflowError and at \<open>2 ^ 60\<close> it
  raises MemoryError, however much memory there is (here the longest list the
  interpreter admits, \<open>2 ^ 60 - 1\<close> elements), so no vector is returned.
\<close>

theorem generate_mock_no_list:
  "generate_mock_embedding (2 ^ 60 - 1) [97, 98, 99] (2 ^ 63) = Inl OverflowError \<and>
   generate_mock_embedding (2 ^ 60 - 1) [97, 98, 99] (2 ^ 60) = Inl MemoryError"
  by (simp add: generate_mock_embedding_def raw_embedding_def list_repeat_def)

text \<open>
  Claim C3, as amended. For every text and every \<open>dimensions \<ge> 1\<close> for which the list can
  be allocated, the vector built before normalisation has a norm strictly greater than
  zero, and the result is that vector with every element divided by the norm, unless
  \<open>dimensions = 1\<close>, every code point is a multiple of 255 and the sum of the code points
  is a multiple of 100; in that case the vector is \<open>[0.0]\<close>, its norm is \<open>0.0\<close> and it is
  returned unchanged. When the list cannot be allocated no vector is built and the call
  raises. For \<open>dimensions \<ge> 2\<close> the exception of the zero norm cannot occur, and the term
  of step 4 is positive for some index.
\<close>

theorem generate_mock_norm_positive:
  "(1 \<le> dimensions \<and> allocatable capacity dimensions \<longrightarrow>
      (\<exists>v n. raw_embedding capacity text dimensions = Inr v \<and> length v = nat dimensions \<and>
         calculate_norm v = Inr n \<and>
         (if degenerate text dimensions
          then v = [Fin False 0] \<and> n = Fin False 0 \<and> \<not> fgt n (Fin False 0) \<and>
               generate_mock_embedding capacity text dimensions = Inr v
          else fgt n (Fin False 0) \<and>
               (\<exists>w. generate_mock_embedding capacity text dimensions = Inr w \<and>
                  length w = length v \<and>
                  (\<forall>i<length v. fdiv (v ! i) n = Inr (w ! i)))))) \<and>
   (1 \<le> dimensions \<and> \<not> allocatable capacity dimensions \<longrightarrow>
      (\<exists>e. raw_embedding capacity text dimensions = Inl e \<and>
         generate_mock_embedding capacity text dimensions = Inl e \<and>
         (e = OverflowError \<or> e = MemoryError))) \<and>
   (2 \<le> dimensions \<longrightarrow>
      \<not> degenerate text dimensions \<and>
      (\<exists>j<nat dimensions. fgt (spec_hash_term text j) (Fin False 0)))"
proof (intro conjI impI)
  assume "1 \<le> dimensions \<and> allocatable capacity dimensions"
  then have d: "1 \<le> dimensions" and al: "allocatable capacity dimensions" by simp_all
  let ?v = "spec_raw_vector text (nat dimensions)"
  let ?n = "spec_norm ?v"
  have raw: "raw_embedding capacity text dimensions = Inr ?v"
    by (rule raw_embedding_spec [OF d al])
  have nrm: "calculate_norm ?v = Inr ?n" by (rule calculate_norm_root)
  show "\<exists>v n. raw_embedding capacity text dimensions = Inr v \<and> length v = nat dimensions \<and>
         calculate_norm v = Inr n \<and>
         (if degenerate text dimensions
          then v = [Fin False 0] \<and> n = Fin False 0 \<and> \<not> fgt n (Fin False 0) \<and>
               generate_mock_embedding capacity text dimensions = Inr v
          else fgt n (Fin False 0) \<and>
               (\<exists>w. generate_mock_embedding capacity text dimensions = Inr w \<and>
                  length w = length v \<and>
                  (\<forall>i<length v. fdiv (v ! i) n = Inr (w ! i))))"
  proof (cases "degenerate text dimensions")
    case True
    have v: "?v = [Fin False 0]" by (rule raw_vector_degenerate [OF True])
    have "calculate_norm [Fin False 0] = Inr (Fin False 0)"
      using calculate_norm_zeros [of 1] by simp
    with nrm have n: "?n = Fin False 0" by (simp add: v)
    have ng: "\<not> fgt (Fin False 0) (Fin False 0)" by (simp add: fgt_def sval_def)
    have "generate_mock_embedding capacity text dimensions = Inr ?v"
      using ng by (simp add: generate_mock_unfold [OF d al] Let_def n)
    moreover have "nat dimensions = 1" using True by (simp add: degenerate_def)
    ultimately show ?thesis using raw nrm True v n ng by auto
  next
    case False
    from raw_vector_has_positive [OF d False] obtain x where
      x: "x \<in> set ?v" "at_least (pow2 (- 12)) x" by blast
    have nn: "\<forall>y\<in>set ?v. at_least 0 y"
      using raw_vector_at_most by (blast intro: at_most_at_least)
    from calculate_norm_pos [OF nn x] have pos: "fgt ?n (Fin False 0)" by simp
    have gen: "generate_mock_embedding capacity text dimensions = divide_all ?v ?n"
      using pos by (simp add: generate_mock_unfold [OF d al] Let_def)
    obtain w where w: "divide_all ?v ?n = Inr w"
      using divide_all_quot [OF pos] by blast
    from divide_all_nth [OF w] gen w raw nrm pos False show ?thesis
      by (intro exI [of _ ?v] exI [of _ ?n]) auto
  qed
next
  assume a: "1 \<le> dimensions \<and> \<not> allocatable capacity dimensions"
  define e where "e = (if 2 ^ 63 \<le> dimensions then OverflowError else MemoryError)"
  from a have "list_repeat capacity (Fin False 0) dimensions = Inl e"
    by (auto simp: list_repeat_def allocatable_def e_def)
  then have "raw_embedding capacity text dimensions = Inl e"
    by (simp add: raw_embedding_def)
  moreover from this have "generate_mock_embedding capacity text dimensions = Inl e"
    by (simp add: generate_mock_embedding_def)
  moreover have "e = OverflowError \<or> e = MemoryError" by (simp add: e_def)
  ultimately show "\<exists>e. raw_embedding capacity text dimensions = Inl e \<and>
         generate_mock_embedding capacity text dimensions = Inl e \<and>
         (e = OverflowError \<or> e = MemoryError)"
    by blast
next
  assume d: "2 \<le> dimensions"
  show "\<not> degenerate text dimensions" using d by (simp add: degenerate_def)
next
  assume d: "2 \<le> dimensions"
  define h where "h = sum_list (map int text)"
  have "(int 0 + h) mod 100 \<noteq> 0 \<or> (int 1 + h) mod 100 \<noteq> 0" by presburger
  then obtain j :: nat where j: "j < 2" "(int j + h) mod 100 \<noteq> 0"
    by (auto intro: that [of 0] that [of 1])
  from hash_term_at_least [of j "text"] j(2) have "fgt (spec_hash_term text j) (Fin False 0)"
    by (intro at_least_pos) (simp add: h_def)
  with j(1) d show "\<exists>j<nat dimensions. fgt (spec_hash_term text j) (Fin False 0)"
    by (intro exI [of _ j]) simp
qed

theorem generate_mock_norm_positive_witness:
  "(1::int) \<le> 1 \<and> allocatable 1024 1 \<and> degenerate [] 1 \<and>
   generate_mock_embedding 1024 [] 1 = Inr [Fin False 0] \<and>
   (2::int) \<le> 2 \<and> allocatable 1024 2 \<and> \<not> degenerate [97, 98, 99] 2 \<and>
   (\<exists>v n w. raw_embedding 1024 [97, 98, 99] 2 = Inr v \<and> calculate_norm v = Inr n \<and>
      fgt n (Fin False 0) \<and> generate_mock_embedding 1024 [97, 98, 99] 2 = Inr w \<and>
      length w = length v \<and> (\<forall>i<length v. fdiv (v ! i) n = Inr (w ! i))) \<and>
   (\<exists>j<nat 2. fgt (spec_hash_term [97, 98, 99] j) (Fin False 0)) \<and>
   (1::int) \<le> 2000 \<and> \<not> allocatable 1024 2000 \<and>
   (\<exists>e. raw_embedding 1024 [97, 98, 99] 2000 = Inl e \<and>
      generate_mock_embedding 1024 [97, 98, 99] 2000 = Inl e)"
proof -
  have d1: "degenerate [] 1" and d2: "\<not> degenerate [97, 98, 99] 2"
    by (simp_all add: degenerate_def)
  have a: "allocatable 1024 1" "allocatable 1024 2" "\<not> allocatable 1024 2000"
    by (simp_all add: allocatable_def)
  from generate_mock_norm_positive [of 1 1024 "[]"] d1 a(1)
  have b: "generate_mock_embedding 1024 [] 1 = Inr [Fin False 0]" by auto
  from generate_mock_norm_positive [of 2 1024 "[97, 98, 99]"] d2 a(2)
  have c: "\<exists>v n w. raw_embedding 1024 [97, 98, 99] 2 = Inr v \<and> calculate_norm v = Inr n \<and>
      fgt n (Fin False 0) \<and> generate_mock_embedding 1024 [97, 98, 99] 2 = Inr w \<and>
      length w = length v \<and> (\<forall>i<length v. fdiv (v ! i) n = Inr (w ! i))"
    and h: "\<exists>j<nat 2. fgt (spec_hash_term [97, 98, 99] j) (Fin False 0)"
    by auto
  from generate_mock_norm_positive [of 2000 1024 "[97, 98, 99]"] a(3)
  have e: "\<exists>e. raw_embedding 1024 [97, 98, 99] 2000 = Inl e \<and>
      generate_mock_embedding 1024 [97, 98, 99] 2000 = Inl e"
    by auto
  from d1 d2 a b c h e show ?thesis by simp
qed

text \<open>
  Claim C3 as stated fails for the empty text and one dimension: the only hash term is
  \<open>(0 + 0) mod 100 / 1000.0 = 0.0\<close>, the norm is \<open>0.0\<close> and the branch that leaves the
  vector unchanged is taken.
\<close>

theorem generate_mock_zero_norm:
  "raw_embedding 1024 [] 1 = Inr [Fin False 0] \<and>
   calculate_norm [Fin False 0] = Inr (Fin False 0) \<and>
   \<not> fgt (Fin False 0) (Fin False 0) \<and>
   generate_mock_embedding 1024 [] 1 = Inr [Fin False 0]"
proof -
  have d: "degenerate [] 1" by (simp add: degenerate_def)
  have a: "allocatable 1024 1" by (simp add: allocatable_def)
  have r: "raw_embedding 1024 [] 1 = Inr [Fin False 0]"
    using raw_embedding_spec [of 1 1024 "[]"] raw_vector_degenerate [OF d] a by simp
  have n: "calculate_norm [Fin False 0] = Inr (Fin False 0)"
    using calculate_norm_zeros [of 1] by simp
  have g: "\<not> fgt (Fin False 0) (Fin False 0)" by (simp add: fgt_def sval_def)
  from r n g show ?thesis by (simp add: generate_mock_embedding_def)
qed

text \<open>
  Claim C4. Two calls of \<open>generate_mock_embedding\<close> with the same text and the same
  \<open>dimensions\<close>, made with whatever memory each of them finds, produce the same outcome
  unless one of them runs out of memory. When both return, the two vectors are identical
  element for element, they hold no NaN, and so they are also equal under Python's \<open>==\<close>.
  A call returns a vector of \<open>dimensions\<close> elements whenever \<open>dimensions \<ge> 1\<close> and the
  list can be allocated; in particular two calls for the text \<open>test text\<close> (code points
  116, 101, 115, 116, 32, 116, 101, 120, 116) and 1024 dimensions, each with room for
  1024 elements, return two equal vectors.
\<close>

theorem generate_mock_deterministic:
  "(generate_mock_embedding capacity1 text dimensions =
      generate_mock_embedding capacity2 text dimensions \<or>
    generate_mock_embedding capacity1 text dimensions = Inl MemoryError \<or>
    generate_mock_embedding capacity2 text dimensions = Inl MemoryError) \<and>
   (\<forall>v1 v2. generate_mock_embedding capacity1 text dimensions = Inr v1 \<and>
        generate_mock_embedding capacity2 text dimensions = Inr v2 \<longrightarrow>
      v1 = v2 \<and> NaN \<notin> set v1 \<and> py_list_eq v1 v2) \<and>
   (1 \<le> dimensions \<and> allocatable capacity1 dimensions \<longrightarrow>
      (\<exists>v. generate_mock_embedding capacity1 text dimensions = Inr v \<and>
         length v = nat dimensions)) \<and>
   (1024 \<le> capacity1 \<and> 1024 \<le> capacity2 \<longrightarrow>
      (\<exists>v1 v2.
         generate_mock_embedding capacity1 [116, 101, 115, 116, 32, 116, 101, 120, 116] 1024 =
           Inr v1 \<and>
         generate_mock_embedding capacity2 [116, 101, 115, 116, 32, 116, 101, 120, 116] 1024 =
           Inr v2 \<and>
         length v1 = 1024 \<and> v1 = v2 \<and> py_list_eq v1 v2))"
  (is "?same \<and> ?vectors \<and> ?returns \<and> ?test")
proof -
  have same: ?same
    by (simp add: generate_mock_outcome)
  have vec: "v = spec_generateMock t (nat d) \<or> v = []"
    if "generate_mock_embedding c t d = Inr v" for c t d v
    using that by (simp add: generate_mock_outcome split: if_splits)
  have clean: "NaN \<notin> set v \<and> py_list_eq v v"
    if "generate_mock_embedding c t d = Inr v" for c t d v
  proof -
    from vec [OF that] show ?thesis
    proof
      assume "v = spec_generateMock t (nat d)"
      with spec_generateMock_no_NaN [of t "nat d"] have "NaN \<notin> set v" by simp
      then show ?thesis by (simp add: py_list_eq_refl)
    next
      assume "v = []"
      then show ?thesis by (simp add: py_list_eq_def)
    qed
  qed
  have vectors: ?vectors
  proof (intro allI impI)
    fix v1 v2
    assume a: "generate_mock_embedding capacity1 text dimensions = Inr v1 \<and>
        generate_mock_embedding capacity2 text dimensions = Inr v2"
    with same have "v1 = v2" by auto
    with clean [of capacity1 "text" dimensions v1] a
    show "v1 = v2 \<and> NaN \<notin> set v1 \<and> py_list_eq v1 v2" by simp
  qed
  have returns: ?returns
    by (simp add: generate_mock_eq_spec spec_generateMock_length)
  have test: ?test
  proof
    assume c: "1024 \<le> capacity1 \<and> 1024 \<le> capacity2"
    let ?t = "[116, 101, 115, 116, 32, 116, 101, 120, 116]"
    let ?v = "spec_generateMock ?t (nat 1024)"
    from c have a: "allocatable capacity1 1024" "allocatable capacity2 1024"
      by (simp_all add: allocatable_def)
    have g: "generate_mock_embedding capacity1 ?t 1024 = Inr ?v"
      "generate_mock_embedding capacity2 ?t 1024 = Inr ?v"
      using a by (simp_all add: generate_mock_eq_spec)
    have "length ?v = 1024" by (simp add: spec_generateMock_length)
    moreover have "py_list_eq ?v ?v"
      using spec_generateMock_no_NaN [of ?t "nat 1024"] by (simp add: py_list_eq_refl)
    ultimately show "\<exists>v1 v2.
         generate_mock_embedding capacity1 ?t 1024 = Inr v1 \<and>
         generate_mock_embedding capacity2 ?t 1024 = Inr v2 \<and>
         length v1 = 1024 \<and> v1 = v2 \<and> py_list_eq v1 v2"
      using g by simp
  qed
  show ?thesis
    by (rule conjI [OF same conjI [OF vectors conjI [OF returns test]]])
qed

theorem generate_mock_deterministic_witness:
  "generate_mock_embedding 5 [97, 98, 99] 2 =
     Inr [Fin False (1774750997922239 / 2251799813685248),
          Fin False (5543805618940021 / 9007199254740992)] \<and>
   generate_mock_embedding 1024 [97, 98, 99] 2 =
     Inr [Fin False (1774750997922239 / 2251799813685248),
          Fin False (5543805618940021 / 9007199254740992)] \<and>
   py_list_eq [Fin False (1774750997922239 / 2251799813685248),
               Fin False (5543805618940021 / 9007199254740992)]
              [Fin False (1774750997922239 / 2251799813685248),
               Fin False (5543805618940021 / 9007199254740992)] \<and>
   (1::int) \<le> 2 \<and> allocatable 5 2 \<and>
   (1024::nat) \<le> 1024 \<and> (1024::nat) \<le> 2048 \<and>
   (\<exists>v1 v2.
      generate_mock_embedding 1024 [116, 101, 115, 116, 32, 116, 101, 120, 116] 1024 = Inr v1 \<and>
      generate_mock_embedding 2048 [116, 101, 115, 116, 32, 116, 101, 120, 116] 1024 = Inr v2 \<and>
      length v1 = 1024 \<and> v1 = v2 \<and> py_list_eq v1 v2)"
proof -
  let ?r = "[Fin False (1774750997922239 / 2251799813685248),
             Fin False (5543805618940021 / 9007199254740992)]"
  have a: "allocatable 5 2" "allocatable 1024 2" by (simp_all add: allocatable_def)
  have g1: "generate_mock_embedding 5 [97, 98, 99] 2 = Inr ?r"
    using generate_mock_eq_spec [OF _ a(1), of "[97, 98, 99]"] by (simp add: example_result)
  have g2: "generate_mock_embedding 1024 [97, 98, 99] 2 = Inr ?r"
    using generate_mock_eq_spec [OF _ a(2), of "[97, 98, 99]"] by (simp add: example_result)
  from generate_mock_deterministic [of 5 "[97, 98, 99]" 2 1024, THEN conjunct2, THEN conjunct1,
      THEN spec, THEN spec, THEN mp, OF conjI [OF g1 g2]]
  have e: "py_list_eq ?r ?r" by simp
  from generate_mock_deterministic [of 1024 "[116, 101, 115, 116, 32, 116, 101, 120, 116]" 1024 2048,
      THEN conjunct2, THEN conjunct2, THEN conjunct2]
  have t: "\<exists>v1 v2.
      generate_mock_embedding 1024 [116, 101, 115, 116, 32, 116, 101, 120, 116] 1024 = Inr v1 \<and>
      generate_mock_embedding 2048 [116, 101, 115, 116, 32, 116, 101, 120, 116] 1024 = Inr v2 \<and>
      length v1 = 1024 \<and> v1 = v2 \<and> py_list_eq v1 v2"
    by simp
  from g1 g2 e a(1) t show ?thesis by simp
qed

section \<open>Completion without exceptions\<close>

text \<open>
  Claim C1, as amended. \<open>validate_embedding\<close> returns exactly for the non-empty
  vectors, also when they hold NaN or infinite values. \<open>generate_mock_embedding\<close>
  returns exactly when the list of \<open>dimensions\<close> elements can be allocated and either
  \<open>dimensions \<ge> 1\<close> or the text is empty; for \<open>dimensions \<ge> 1\<close> the vector has
  \<open>dimensions\<close> elements.
\<close>

theorem validator_and_generator_complete:
  "((\<exists>ok issues. validate_embedding embedding = Inr (ok, issues)) \<longleftrightarrow> embedding \<noteq> []) \<and>
   ((\<exists>v. generate_mock_embedding capacity text dimensions = Inr v) \<longleftrightarrow>
      allocatable capacity dimensions \<and> (1 \<le> dimensions \<or> text = [])) \<and>
   (1 \<le> dimensions \<and> allocatable capacity dimensions \<longrightarrow>
      (\<exists>v. generate_mock_embedding capacity text dimensions = Inr v \<and>
         length v = nat dimensions)) \<and>
   (allocatable capacity dimensions \<longrightarrow>
      (\<exists>v. generate_mock_embedding capacity [] dimensions = Inr v))"
  (is "?validate \<and> ?generate \<and> ?vector \<and> ?empty")
proof -
  have validate: ?validate
  proof (cases "embedding = []")
    case True
    then show ?thesis by (simp add: validate_empty)
  next
    case False
    from validate_nonempty [OF False] have
      "\<exists>ok issues. validate_embedding embedding = Inr (ok, issues)" by blast
    with False show ?thesis by simp
  qed
  have generate: ?generate
  proof (cases "allocatable capacity dimensions")
    case False
    then show ?thesis by (simp add: generate_mock_not_allocatable)
  next
    case al: True
    show ?thesis
    proof (cases "1 \<le> dimensions")
      case True
      then show ?thesis using al by (simp add: generate_mock_eq_spec)
    next
      case False
      then have d: "dimensions \<le> 0" by simp
      show ?thesis
      proof (cases "text = []")
        case True
        then show ?thesis using al by (simp add: generate_mock_empty_text [OF d al])
      next
        case False
        then show ?thesis
          using al d by (simp add: generate_mock_no_dimensions [OF d al False])
      qed
    qed
  qed
  have vector: ?vector
    by (simp add: generate_mock_eq_spec spec_generateMock_length)
  have empty: ?empty
  proof
    assume al: "allocatable capacity dimensions"
    show "\<exists>v. generate_mock_embedding capacity [] dimensions = Inr v"
    proof (cases "1 \<le> dimensions")
      case True
      then show ?thesis using al by (simp add: generate_mock_eq_spec)
    next
      case False
      then show ?thesis using al by (simp add: generate_mock_empty_text)
    qed
  qed
  show ?thesis
    by (rule conjI [OF validate conjI [OF generate conjI [OF vector empty]]])
qed

theorem validator_and_generator_complete_witness:
  "[NaN, Inf False] \<noteq> [] \<and>
   (\<exists>ok issues. validate_embedding [NaN, Inf False] = Inr (ok, issues)) \<and>
   (1::int) \<le> 2 \<and> allocatable 1024 2 \<and>
   (\<exists>v. generate_mock_embedding 1024 [97, 98, 99] 2 = Inr v \<and> length v = 2) \<and>
   allocatable 1024 (- 3) \<and> (\<exists>v. generate_mock_embedding 1024 [] (- 3) = Inr v) \<and>
   \<not> allocatable 1024 2000 \<and> (\<nexists>v. generate_mock_embedding 1024 [97, 98, 99] 2000 = Inr v) \<and>
   (\<nexists>v. generate_mock_embedding 1024 [97, 98, 99] 0 = Inr v)"
proof -
  have a: "allocatable 1024 2" "allocatable 1024 (- 3)" "\<not> allocatable 1024 2000"
    "allocatable 1024 0"
    by (simp_all add: allocatable_def)
  from validator_and_generator_complete [of "[NaN, Inf False]" 1024 "[97, 98, 99]" 2] a(1)
  have v: "\<exists>ok issues. validate_embedding [NaN, Inf False] = Inr (ok, issues)"
    and g: "\<exists>v. generate_mock_embedding 1024 [97, 98, 99] 2 = Inr v \<and> length v = 2"
    by simp_all
  from validator_and_generator_complete [of "[NaN, Inf False]" 1024 "[]" "- 3"] a(2)
  have e: "\<exists>v. generate_mock_embedding 1024 [] (- 3) = Inr v"
    by simp
  from validator_and_generator_complete [of "[NaN, Inf False]" 1024 "[97, 98, 99]" 2000] a(3)
  have m: "\<nexists>v. generate_mock_embedding 1024 [97, 98, 99] 2000 = Inr v"
    by simp
  from validator_and_generator_complete [of "[NaN, Inf False]" 1024 "[97, 98, 99]" 0] a(4)
  have z: "\<nexists>v. generate_mock_embedding 1024 [97, 98, 99] 0 = Inr v"
    by simp
  from a v g e m z show ?thesis by simp
qed

text \<open>
  Claim C1 as stated fails: \<open>min\<close> raises ValueError on the empty vector; a non-empty
  text raises ZeroDivisionError for \<open>dimensions = 0\<close> (at \<open>i % dimensions\<close>) and
  IndexError for a negative \<open>dimensions\<close> (at \<open>embedding[idx]\<close>); and
  \<open>[0.0] * dimensions\<close> raises OverflowError for \<open>dimensions = 2 ^ 63\<close> and MemoryError
  for \<open>dimensions = 2 ^ 60\<close>, also for the empty text and with the most memory the
  interpreter can use.
\<close>

theorem validator_or_generator_raises:
  "validate_embedding [] = Inl ValueError \<and>
   generate_mock_embedding (2 ^ 60 - 1) [97] 0 = Inl ZeroDivisionError \<and>
   generate_mock_embedding (2 ^ 60 - 1) [97] (- 1) = Inl IndexError \<and>
   generate_mock_embedding (2 ^ 60 - 1) [] (2 ^ 63) = Inl OverflowError \<and>
   generate_mock_embedding (2 ^ 60 - 1) [] (2 ^ 60) = Inl MemoryError"
  by (simp add: validate_empty generate_mock_embedding_def raw_embedding_def list_repeat_def
      py_index_def)

end
